theory Spec2Isabelle
  imports Complex_Main "HOL-Library.Sublist"
begin

section \<open>JavaScript strings\<close>

text \<open>
  A JavaScript string is a sequence of UTF-16 code units, and \<open>length\<close>, \<open>slice\<close>,
  \<open>split\<close> and \<open>trim\<close> all work on code units. A string is modelled as the list of
  its code units, each a natural number below 65536. \<open>js\<close> turns an ASCII literal
  into such a list.
\<close>

type_synonym jsstring = "nat list"

definition js :: "string \<Rightarrow> jsstring" where
  "js s = map of_char s"

text \<open>
  The characters \<open>String.prototype.trim\<close> removes and the regular expression class
  \<open>\s\<close> matches: the ECMAScript WhiteSpace and LineTerminator productions.
\<close>

definition is_ws :: "nat \<Rightarrow> bool" where
  "is_ws c \<longleftrightarrow>
     c \<in> {9, 10, 11, 12, 13, 32, 160, 5760, 8232, 8233, 8239, 8287, 12288, 65279}
     \<or> (8192 \<le> c \<and> c \<le> 8202)"

definition trim :: "jsstring \<Rightarrow> jsstring" where
  "trim s = rev (dropWhile is_ws (rev (dropWhile is_ws s)))"

text \<open>
  \<open>text.split(sep)\<close> for a non-empty separator cuts at the leftmost occurrences of
  \<open>sep\<close>, scanning left to right without overlap; \<open>split_from\<close> carries the piece
  read so far. For the empty separator \<open>split\<close> yields the single code units.
\<close>

fun split_from :: "jsstring \<Rightarrow> jsstring \<Rightarrow> jsstring \<Rightarrow> jsstring list" where
  "split_from sep cur [] = [cur]"
| "split_from sep cur (c # cs) =
     (if sep \<noteq> [] \<and> prefix sep (c # cs)
      then cur # split_from sep [] (drop (length sep) (c # cs))
      else split_from sep (cur @ [c]) cs)"

definition js_split :: "jsstring \<Rightarrow> jsstring \<Rightarrow> jsstring list" where
  "js_split text sep = (if sep = [] then map (\<lambda>c. [c]) text else split_from sep [] text)"

text \<open>\<open>s.slice(-n)\<close> for \<open>n > 0\<close>: the last \<open>n\<close> code units, or all of \<open>s\<close> when it is shorter.\<close>

definition slice_last :: "nat \<Rightarrow> jsstring \<Rightarrow> jsstring" where
  "slice_last n s = drop (length s - n) s"

text \<open>The decimal digits of a number, as a template literal renders an index.\<close>

fun decimal :: "nat \<Rightarrow> jsstring" where
  "decimal n = (if n < 10 then [48 + n] else decimal (n div 10) @ [48 + n mod 10])"

declare decimal.simps [simp del]

text \<open>
  \<open>xs.slice(start, end)\<close> on an array: a negative index counts from the end, and both
  are clamped to the array. \<open>xs.slice(start)\<close> is \<open>js_slice xs start (length xs)\<close>.
\<close>

definition js_slice :: "'a list \<Rightarrow> int \<Rightarrow> int \<Rightarrow> 'a list" where
  "js_slice xs start end =
     (let len = int (length xs);
          from = (if start < 0 then max (len + start) 0 else min start len);
          to = (if end < 0 then max (len + end) 0 else min end len)
      in take (nat (to - from)) (drop (nat from) xs))"

fun js_join :: "jsstring \<Rightarrow> jsstring list \<Rightarrow> jsstring" where
  "js_join sep [] = []"
| "js_join sep [x] = x"
| "js_join sep (x # y # ys) = x @ sep @ js_join sep (y # ys)"

text \<open>An integer as \<open>JSON.stringify\<close> and template literals render it.\<close>

definition show_int :: "int \<Rightarrow> jsstring" where
  "show_int i = (if i < 0 then 45 # decimal (nat (- i)) else decimal (nat i))"

text \<open>
  \<open>JSON.stringify\<close> of a string (QuoteJSONString) goes through its code points: a
  high surrogate followed by a low one is one code point and is copied; any other code
  unit is a code point of its own, written as a two-character escape, as a \<open>\\uXXXX\<close>
  escape when it is another control character or a lone surrogate, and as it is
  otherwise.
\<close>

definition hex_digit :: "nat \<Rightarrow> nat" where
  "hex_digit d = (if d < 10 then 48 + d else 87 + d)"

definition unicode_escape :: "nat \<Rightarrow> jsstring" where
  "unicode_escape c =
     [92, 117, hex_digit (c div 4096 mod 16), hex_digit (c div 256 mod 16),
      hex_digit (c div 16 mod 16), hex_digit (c mod 16)]"

definition is_high_surrogate :: "nat \<Rightarrow> bool" where
  "is_high_surrogate c \<longleftrightarrow> 55296 \<le> c \<and> c \<le> 56319"

definition is_low_surrogate :: "nat \<Rightarrow> bool" where
  "is_low_surrogate c \<longleftrightarrow> 56320 \<le> c \<and> c \<le> 57343"

definition escape_unit :: "nat \<Rightarrow> jsstring" where
  "escape_unit c =
     (if c = 8 then [92, 98]
      else if c = 9 then [92, 116]
      else if c = 10 then [92, 110]
      else if c = 12 then [92, 102]
      else if c = 13 then [92, 114]
      else if c = 34 then [92, 34]
      else if c = 92 then [92, 92]
      else if c < 32 \<or> is_high_surrogate c \<or> is_low_surrogate c then unicode_escape c
      else [c])"

fun json_escape :: "jsstring \<Rightarrow> jsstring" where
  "json_escape [] = []"
| "json_escape [c] = escape_unit c"
| "json_escape (c # d # ds) =
     (if is_high_surrogate c \<and> is_low_surrogate d then c # d # json_escape ds
      else escape_unit c @ json_escape (d # ds))"

definition json_string :: "jsstring \<Rightarrow> jsstring" where
  "json_string s = [34] @ json_escape s @ [34]"

text \<open>
  \<open>new TextEncoder().encode(s)\<close>: the string is read as code points, a surrogate pair
  being one code point and a lone surrogate becoming U+FFFD, and each code point is
  written as its one to four UTF-8 bytes.
\<close>

fun code_points :: "jsstring \<Rightarrow> nat list" where
  "code_points [] = []"
| "code_points [c] = [if is_high_surrogate c \<or> is_low_surrogate c then 65533 else c]"
| "code_points (c # d # ds) =
     (if is_high_surrogate c \<and> is_low_surrogate d
      then (65536 + (c - 55296) * 1024 + (d - 56320)) # code_points ds
      else (if is_high_surrogate c \<or> is_low_surrogate c then 65533 else c)
           # code_points (d # ds))"

definition utf8 :: "nat \<Rightarrow> nat list" where
  "utf8 cp =
     (if cp < 128 then [cp]
      else if cp < 2048 then [192 + cp div 64, 128 + cp mod 64]
      else if cp < 65536 then [224 + cp div 4096, 128 + cp div 64 mod 64, 128 + cp mod 64]
      else [240 + cp div 262144, 128 + cp div 4096 mod 64, 128 + cp div 64 mod 64,
            128 + cp mod 64])"

definition encode :: "jsstring \<Rightarrow> nat list" where
  "encode s = concat (map utf8 (code_points s))"

section \<open>The chunker (src/lib/chunker.ts)\<close>

record ParentChunk =
  id_p :: jsstring
  text_p :: jsstring
  index_p :: nat

record ChildChunk =
  text_c :: jsstring
  index_c :: nat
  parentId :: jsstring
  childIndex :: nat

text \<open>The separators, coarse to fine: paragraph break, line break, ". ", space, "".\<close>

definition SEPARATORS :: "jsstring list" where
  "SEPARATORS = [[10, 10], [10], [46, 32], [32], []]"

text \<open>
  The fixed-width fallback of \<open>splitRecursive\<close>:
  \<open>for (let i = 0; i < text.length; i += chunkSize) parts.push(text.slice(i, i + chunkSize))\<close>.
  Sizes are non-negative integers. With \<open>chunkSize = 0\<close> the index never advances and
  the loop does not end: the value of the model is then \<open>None\<close>.
\<close>

partial_function (option) sliceLoop ::
  "jsstring \<Rightarrow> nat \<Rightarrow> nat \<Rightarrow> jsstring list \<Rightarrow> jsstring list option" where
  "sliceLoop text chunkSize i parts =
     (if i < length text
      then sliceLoop text chunkSize (i + chunkSize) (parts @ [take chunkSize (drop i text)])
      else Some parts)"

declare sliceLoop.simps [code]

text \<open>
  The loop of \<open>splitRecursive\<close> over the pieces of one split. \<open>recurse\<close> is the
  recursive call on a piece with the finer separators. An empty \<open>current\<close> is falsy:
  it is neither joined with the separator nor pushed.
\<close>

fun pack ::
  "(jsstring \<Rightarrow> jsstring list option) \<Rightarrow> jsstring \<Rightarrow> nat \<Rightarrow> jsstring list \<Rightarrow> jsstring
     \<Rightarrow> jsstring list \<Rightarrow> jsstring list option" where
  "pack recurse sep chunkSize results current [] =
     Some (if current \<noteq> [] then results @ [current] else results)"
| "pack recurse sep chunkSize results current (piece # pieces) =
     (let candidate = (if current \<noteq> [] then current @ sep @ piece else piece) in
      if length candidate \<le> chunkSize
      then pack recurse sep chunkSize results candidate pieces
      else
        let results' = (if current \<noteq> [] then results @ [current] else results) in
        if length piece > chunkSize
        then (case recurse piece of
                None \<Rightarrow> None
              | Some sub \<Rightarrow> pack recurse sep chunkSize (results' @ sub) [] pieces)
        else pack recurse sep chunkSize results' piece pieces)"

fun splitRecursive :: "jsstring \<Rightarrow> jsstring list \<Rightarrow> nat \<Rightarrow> jsstring list option" where
  "splitRecursive text [] chunkSize =
     (if length text \<le> chunkSize then Some [text] else sliceLoop text chunkSize 0 [])"
| "splitRecursive text (sep # rest) chunkSize =
     (if length text \<le> chunkSize then Some [text]
      else pack (\<lambda>piece. splitRecursive piece rest chunkSize) sep chunkSize [] []
             (if sep = [] then [text] else js_split text sep))"

text \<open>
  The inner loop of \<open>mergeChunks\<close>: the chunk absorbs the following splits while
  \<open>chunk.length + splits[i + 1].length + 1 <= chunkSize\<close>. It returns the chunk and
  the splits not absorbed.
\<close>

fun absorb :: "jsstring \<Rightarrow> jsstring list \<Rightarrow> nat \<Rightarrow> jsstring \<times> jsstring list" where
  "absorb chunk [] chunkSize = (chunk, [])"
| "absorb chunk (s # ss) chunkSize =
     (if length chunk + length s + 1 \<le> chunkSize
      then absorb (chunk @ [32] @ trim s) ss chunkSize
      else (chunk, s # ss))"

lemma absorb_rest_length: "length (snd (absorb chunk ss chunkSize)) \<le> length ss"
  by (induction ss arbitrary: chunk) (auto intro: le_SucI)

function mergeLoop :: "jsstring list \<Rightarrow> nat \<Rightarrow> jsstring list" where
  "mergeLoop [] chunkSize = []"
| "mergeLoop (s # ss) chunkSize =
     (let (chunk, rest) = absorb (trim s) ss chunkSize in
      (if chunk \<noteq> [] then [chunk] else []) @ mergeLoop rest chunkSize)"
  by pat_completeness auto
termination
proof (relation "measure (\<lambda>(splits, chunkSize). length splits)")
  show "wf (measure (\<lambda>(splits, chunkSize). length splits))"
    by simp
next
  fix s ss chunkSize x chunk rest
  assume "x = absorb (trim s) ss chunkSize" and "(chunk, rest) = x"
  then have "rest = snd (absorb (trim s) ss chunkSize)"
    by (metis snd_conv)
  then show "((rest, chunkSize), s # ss, chunkSize)
               \<in> measure (\<lambda>(splits, chunkSize). length splits)"
    using absorb_rest_length [of "trim s" ss chunkSize] by simp
qed

text \<open>
  The overlap loop: chunk \<open>j\<close> becomes
  \<open>result[j - 1].slice(-overlap) + " " + result[j]\<close>, for \<open>j\<close> from 1.
\<close>

fun overlapFrom :: "nat \<Rightarrow> jsstring \<Rightarrow> jsstring list \<Rightarrow> jsstring list" where
  "overlapFrom overlap prev [] = []"
| "overlapFrom overlap prev (r # rs) =
     (slice_last overlap prev @ [32] @ r) # overlapFrom overlap r rs"

definition mergeChunks :: "jsstring list \<Rightarrow> nat \<Rightarrow> nat \<Rightarrow> jsstring list" where
  "mergeChunks splits chunkSize overlap =
     (if length splits \<le> 1 then filter (\<lambda>s. s \<noteq> []) (map trim splits)
      else
        let result = mergeLoop splits chunkSize in
        if overlap > 0 \<and> length result > 1
        then hd result # overlapFrom overlap (hd result) (tl result)
        else result)"

definition splitAndMerge :: "jsstring \<Rightarrow> nat \<Rightarrow> nat \<Rightarrow> jsstring list option" where
  "splitAndMerge text chunkSize overlap =
     (case splitRecursive text SEPARATORS chunkSize of
        None \<Rightarrow> None
      | Some rawChunks \<Rightarrow> Some (mergeChunks rawChunks chunkSize overlap))"

definition mkParents :: "jsstring list \<Rightarrow> ParentChunk list" where
  "mkParents parentTexts =
     map (\<lambda>(i, t). \<lparr>id_p = js ''p-'' @ decimal i, text_p = t, index_p = i\<rparr>)
       (enumerate 0 parentTexts)"

text \<open>
  The children of one parent, pushed after the \<open>children\<close> collected so far:
  \<open>index\<close> is \<open>children.length\<close> at the time of the push.
\<close>

definition pushChildren :: "ParentChunk \<Rightarrow> jsstring list \<Rightarrow> ChildChunk list \<Rightarrow> ChildChunk list" where
  "pushChildren parent childTexts children =
     children @
     map (\<lambda>(ci, t). \<lparr>text_c = t, index_c = length children + ci,
                      parentId = id_p parent, childIndex = ci\<rparr>)
       (enumerate 0 childTexts)"

fun childLoop ::
  "ParentChunk list \<Rightarrow> nat \<Rightarrow> nat \<Rightarrow> ChildChunk list \<Rightarrow> ChildChunk list option" where
  "childLoop [] childSize childOverlap children = Some children"
| "childLoop (parent # parents) childSize childOverlap children =
     (case splitAndMerge (text_p parent) childSize childOverlap of
        None \<Rightarrow> None
      | Some childTexts \<Rightarrow>
          childLoop parents childSize childOverlap (pushChildren parent childTexts children))"

definition parentChildChunk ::
  "jsstring \<Rightarrow> nat \<Rightarrow> nat \<Rightarrow> nat \<Rightarrow> nat \<Rightarrow> (ParentChunk list \<times> ChildChunk list) option" where
  "parentChildChunk text parentSize parentOverlap childSize childOverlap =
     (case splitAndMerge text parentSize parentOverlap of
        None \<Rightarrow> None
      | Some parentTexts \<Rightarrow>
          (let parents = mkParents parentTexts in
           case childLoop parents childSize childOverlap [] of
             None \<Rightarrow> None
           | Some children \<Rightarrow> Some (parents, children)))"

section \<open>Notions the chunking properties are stated with\<close>

text \<open>
  The non-whitespace characters of a string, in order: two strings are equal up to
  whitespace normalisation when these agree.
\<close>

definition nonspace :: "jsstring \<Rightarrow> jsstring" where
  "nonspace s = filter (\<lambda>c. \<not> is_ws c) s"

text \<open>The characters of a string that are neither whitespace nor a full stop.\<close>

definition substance :: "jsstring \<Rightarrow> jsstring" where
  "substance s = filter (\<lambda>c. \<not> is_ws c \<and> c \<noteq> 46) s"

text \<open>
  Removing the injected overlap: from each chunk after the first, the prefix made of the
  tail of the preceding chunk (without its own prefix) and the joining space. Nothing was
  injected when \<open>overlap\<close> is 0 or there is a single chunk.
\<close>

fun stripFrom :: "nat \<Rightarrow> jsstring \<Rightarrow> jsstring list \<Rightarrow> jsstring list" where
  "stripFrom overlap prev [] = []"
| "stripFrom overlap prev (c # cs) =
     (let body = drop (length (slice_last overlap prev) + 1) c
      in body # stripFrom overlap body cs)"

definition stripOverlap :: "nat \<Rightarrow> jsstring list \<Rightarrow> jsstring list" where
  "stripOverlap overlap chunks =
     (if overlap > 0 \<and> length chunks > 1
      then hd chunks # stripFrom overlap (hd chunks) (tl chunks)
      else chunks)"

text \<open>
  \<open>stops_elided t u\<close>: \<open>u\<close> is the non-whitespace content of \<open>t\<close>, in order and each
  character once, except that full stops standing directly before a space may be left
  out. \<open>stop_before_space t\<close>: the text \<open>t\<close> contains ". ".
\<close>

fun stops_elided :: "jsstring \<Rightarrow> jsstring \<Rightarrow> bool" where
  "stops_elided [] u = (u = [])"
| "stops_elided (c # cs) u =
     (if is_ws c then stops_elided cs u
      else (u \<noteq> [] \<and> hd u = c \<and> stops_elided cs (tl u))
           \<or> (c = 46 \<and> cs \<noteq> [] \<and> hd cs = 32 \<and> stops_elided cs u))"

fun stop_before_space :: "jsstring \<Rightarrow> bool" where
  "stop_before_space (c # d # cs) = (c = 46 \<and> d = 32 \<or> stop_before_space (d # cs))"
| "stop_before_space cs = False"

text \<open>
  The same with the lines of the text taken into account, a line being a stretch without
  line break: \<open>long_line_stops_elided n 0 t u\<close> lets a full stop before a space be left
  out only in a line of more than \<open>n\<close> code units, and \<open>long_line_stop n 0 t\<close> says
  that the text has such a full stop. The second argument is the number of code units of
  the current line already read.
\<close>

fun long_line_stops_elided :: "nat \<Rightarrow> nat \<Rightarrow> jsstring \<Rightarrow> jsstring \<Rightarrow> bool" where
  "long_line_stops_elided n k [] u = (u = [])"
| "long_line_stops_elided n k (c # cs) u =
     (if c = 10 then long_line_stops_elided n 0 cs u
      else if is_ws c then long_line_stops_elided n (Suc k) cs u
      else (u \<noteq> [] \<and> hd u = c \<and> long_line_stops_elided n (Suc k) cs (tl u))
           \<or> (c = 46 \<and> cs \<noteq> [] \<and> hd cs = 32
               \<and> n < Suc k + length (takeWhile (\<lambda>d. d \<noteq> 10) cs)
               \<and> long_line_stops_elided n (Suc k) cs u))"

fun long_line_stop :: "nat \<Rightarrow> nat \<Rightarrow> jsstring \<Rightarrow> bool" where
  "long_line_stop n k [] = False"
| "long_line_stop n k (c # cs) =
     (if c = 10 then long_line_stop n 0 cs
      else (c = 46 \<and> cs \<noteq> [] \<and> hd cs = 32
            \<and> n < Suc k + length (takeWhile (\<lambda>d. d \<noteq> 10) cs))
           \<or> long_line_stop n (Suc k) cs)"

text \<open>The chunks of \<open>mergeChunks\<close> before the overlap is injected.\<close>

definition mergeCore :: "jsstring list \<Rightarrow> nat \<Rightarrow> jsstring list" where
  "mergeCore splits n =
     (if length splits \<le> 1 then filter (\<lambda>s. s \<noteq> []) (map trim splits) else mergeLoop splits n)"

section \<open>The chat route (src/app/api/chat/route.ts)\<close>

record message =
  role :: jsstring
  content :: jsstring

record tokens =
  prompt :: nat
  completion :: nat

text \<open>What a failing call throws: an \<open>Error\<close> with its message, or any other value.\<close>

datatype thrown = Error jsstring | Thrown

text \<open>
  A request to the completion service, and what the route reads of its answer:
  \<open>res.choices[0]?.message?.content\<close> (absent or null is \<open>None\<close>) and the two
  counts of \<open>res.usage\<close>.
\<close>

record chat_request =
  model :: jsstring
  system_content :: jsstring
  user_content :: jsstring
  max_tokens :: "nat option"
  temperature :: "nat option"
  stream :: bool

record chat_response =
  message_content :: "jsstring option"
  prompt_tokens :: "nat option"
  completion_tokens :: "nat option"

type_synonym completions = "chat_request \<Rightarrow> thrown + chat_response"

definition MAX_RECENT :: nat where
  "MAX_RECENT = 6"

text \<open>The transcript lines \<open>Human: ...\<close> and \<open>AI: ...\<close>, joined by a line break.\<close>

definition transcript :: "message list \<Rightarrow> jsstring" where
  "transcript ms =
     js_join [10]
       (map (\<lambda>m. (if role m = js ''user'' then js ''Human'' else js ''AI'')
                    @ js '': '' @ content m) ms)"

definition or_else :: "jsstring \<Rightarrow> jsstring \<Rightarrow> jsstring" where
  "or_else s fallback = (if s \<noteq> [] then s else fallback)"

definition usage_of :: "chat_response \<Rightarrow> tokens" where
  "usage_of res =
     \<lparr>prompt = (case prompt_tokens res of None \<Rightarrow> 0 | Some n \<Rightarrow> n),
      completion = (case completion_tokens res of None \<Rightarrow> 0 | Some n \<Rightarrow> n)\<rparr>"

text \<open>\<open>res.choices[0]?.message?.content?.trim() || fallback\<close>\<close>

definition content_or :: "chat_response \<Rightarrow> jsstring \<Rightarrow> jsstring" where
  "content_or res fallback =
     (case message_content res of
        None \<Rightarrow> fallback
      | Some c \<Rightarrow> or_else (trim c) fallback)"

definition reformulateRequest :: "jsstring \<Rightarrow> jsstring \<Rightarrow> message list \<Rightarrow> chat_request" where
  "reformulateRequest question summary recentMessages =
     \<lparr>model = js ''gpt-4o-mini'',
      system_content =
        js ''Rewrite the user's latest message as a standalone question that can be understood WITHOUT any conversation history. Resolve all pronouns (he/she/it/they/that/this). Do NOT answer the question, only rewrite it. If it's already standalone, return it as-is. Return ONLY the rewritten question, nothing else.'',
      user_content =
        js ''Conversation summary: '' @ or_else summary (js ''No previous conversation.'')
        @ [10, 10] @ js ''Recent messages:'' @ [10]
        @ or_else (transcript recentMessages) (js ''No recent messages.'')
        @ [10, 10] @ js ''User's latest message: '' @ question
        @ [10, 10] @ js ''Standalone question:'',
      max_tokens = Some 200, temperature = Some 0, stream = False\<rparr>"

text \<open>
  The asynchronous helpers return the requests they sent to the completion service
  together with their result; a rejected promise is \<open>Inl\<close>.
\<close>

record reformulated =
  query :: jsstring
  query_tokens :: tokens

definition reformulateQuery ::
  "completions \<Rightarrow> jsstring \<Rightarrow> jsstring \<Rightarrow> message list
     \<Rightarrow> chat_request list \<times> (thrown + reformulated)" where
  "reformulateQuery create question summary recentMessages =
     (if length recentMessages = 0 \<and> summary = []
      then ([], Inr \<lparr>query = question, query_tokens = \<lparr>prompt = 0, completion = 0\<rparr>\<rparr>)
      else
        let request = reformulateRequest question summary recentMessages in
        (case create request of
           Inl e \<Rightarrow> ([request], Inl e)
         | Inr res \<Rightarrow>
             ([request],
              Inr \<lparr>query = content_or res question, query_tokens = usage_of res\<rparr>)))"

definition summarizeRequest :: "jsstring \<Rightarrow> message list \<Rightarrow> chat_request" where
  "summarizeRequest existingSummary newMessages =
     \<lparr>model = js ''gpt-4o-mini'',
      system_content =
        js ''Summarize this conversation concisely. Capture key topics, facts discussed, and any conclusions. Keep it under 200 words.'',
      user_content =
        js ''Previous summary: '' @ or_else existingSummary (js ''No previous summary.'')
        @ [10, 10] @ js ''New messages:'' @ [10] @ transcript newMessages
        @ [10, 10] @ js ''Updated summary:'',
      max_tokens = Some 300, temperature = Some 0, stream = False\<rparr>"

record summarized =
  new_summary :: jsstring
  summary_tokens :: tokens

definition summarizeOverflow ::
  "completions \<Rightarrow> jsstring \<Rightarrow> message list \<Rightarrow> chat_request list \<times> (thrown + summarized)" where
  "summarizeOverflow create existingSummary newMessages =
     (let request = summarizeRequest existingSummary newMessages in
      case create request of
        Inl e \<Rightarrow> ([request], Inl e)
      | Inr res \<Rightarrow>
          ([request],
           Inr \<lparr>new_summary = content_or res existingSummary, summary_tokens = usage_of res\<rparr>))"

text \<open>
  The memory management block of \<open>POST\<close>: the summary, the count of summarized
  messages, the tokens spent and the recent window, from the messages before the last.
\<close>

record memory =
  currentSummary :: jsstring
  currentSummaryMsgCount :: int
  summaryTokens :: tokens
  recentMessages :: "message list"

definition newOverflow :: "message list \<Rightarrow> int \<Rightarrow> message list" where
  "newOverflow previousMessages summaryMsgCount =
     js_slice previousMessages summaryMsgCount
       (int (length previousMessages) - int MAX_RECENT)"

definition manageMemory ::
  "completions \<Rightarrow> message list \<Rightarrow> jsstring \<Rightarrow> int \<Rightarrow> chat_request list \<times> (thrown + memory)" where
  "manageMemory create previousMessages existingSummary summaryMsgCount =
     (if length previousMessages > MAX_RECENT
      then
        let recent = js_slice previousMessages (- int MAX_RECENT) (int (length previousMessages));
            overflow = newOverflow previousMessages summaryMsgCount
        in if length overflow > 0
           then (case summarizeOverflow create existingSummary overflow of
                   (calls, Inl e) \<Rightarrow> (calls, Inl e)
                 | (calls, Inr result) \<Rightarrow>
                     (calls,
                      Inr \<lparr>currentSummary = new_summary result,
                           currentSummaryMsgCount =
                             int (length previousMessages) - int MAX_RECENT,
                           summaryTokens = summary_tokens result,
                           recentMessages = recent\<rparr>))
           else ([], Inr \<lparr>currentSummary = existingSummary,
                           currentSummaryMsgCount = summaryMsgCount,
                           summaryTokens = \<lparr>prompt = 0, completion = 0\<rparr>,
                           recentMessages = recent\<rparr>)
      else ([], Inr \<lparr>currentSummary = existingSummary,
                      currentSummaryMsgCount = summaryMsgCount,
                      summaryTokens = \<lparr>prompt = 0, completion = 0\<rparr>,
                      recentMessages = previousMessages\<rparr>))"

text \<open>
  A search result as \<open>queryChunks\<close> returns it. Of the metadata the route reads
  \<open>parentId\<close>, \<open>parentText\<close> and \<open>text\<close>; each is \<open>None\<close> when absent and otherwise
  the value as \<open>String(...)\<close> renders it.
\<close>

record match =
  match_id :: jsstring
  score :: real
  meta_parentId :: "jsstring option"
  meta_parentText :: "jsstring option"
  meta_text :: "jsstring option"

text \<open>\<open>String(r.metadata.parentId ?? "")\<close>\<close>

definition pid_of :: "match \<Rightarrow> jsstring" where
  "pid_of r = (case meta_parentId r of None \<Rightarrow> [] | Some p \<Rightarrow> p)"

text \<open>\<open>String(r.metadata.parentText ?? r.metadata.text ?? "")\<close>\<close>

definition pText_of :: "match \<Rightarrow> jsstring" where
  "pText_of r =
     (case meta_parentText r of
        Some t \<Rightarrow> t
      | None \<Rightarrow> (case meta_text r of Some t \<Rightarrow> t | None \<Rightarrow> []))"

fun collectParents :: "match list \<Rightarrow> jsstring set \<Rightarrow> jsstring list \<Rightarrow> jsstring list" where
  "collectParents [] seenParents parentTexts = parentTexts"
| "collectParents (r # results) seenParents parentTexts =
     (let pid = pid_of r in
      if pid \<noteq> [] \<and> pid \<in> seenParents then collectParents results seenParents parentTexts
      else
        let seenParents' = (if pid \<noteq> [] then insert pid seenParents else seenParents);
            pText = pText_of r
        in collectParents results seenParents'
             (if pText \<noteq> [] then parentTexts @ [pText] else parentTexts))"

definition CONTEXT_DELIMITER :: jsstring where
  "CONTEXT_DELIMITER = [10, 10] @ js ''---'' @ [10, 10]"

definition NO_CONTEXT :: jsstring where
  "NO_CONTEXT = js ''No relevant context found in the uploaded documents.''"

definition buildContext :: "match list \<Rightarrow> jsstring" where
  "buildContext results =
     (let parentTexts = collectParents results {} [] in
      if length parentTexts > 0 then js_join CONTEXT_DELIMITER parentTexts else NO_CONTEXT)"


text \<open>
  The streamed completion: the chunks the iteration yields, each with the usage it
  carries (if any) and its \<open>choices[0]?.delta?.content\<close> (if any), and the error that
  ends the iteration early (if any).
\<close>

record stream_chunk =
  chunk_usage :: "tokens option"
  delta :: "jsstring option"

type_synonym completion_stream = "stream_chunk list \<times> thrown option"

record 'v services =
  apiKeySet :: bool
  createChat :: completions
  createStream :: "chat_request \<Rightarrow> thrown + completion_stream"
  embedText :: "jsstring \<Rightarrow> thrown + 'v"
  queryChunks :: "jsstring \<Rightarrow> 'v \<Rightarrow> nat \<Rightarrow> jsstring list option \<Rightarrow> thrown + match list"

datatype 'v call =
    ChatCall chat_request
  | EmbedCall jsstring
  | QueryCall jsstring 'v nat "jsstring list option"
  | StreamCall chat_request

definition answerRequest ::
  "jsstring \<Rightarrow> jsstring \<Rightarrow> message list \<Rightarrow> jsstring \<Rightarrow> chat_request" where
  \<open>answerRequest context summary recent question =
     \<lparr>model = js ''gpt-4o-mini'',
      system_content =
        js ''You are a knowledgeable document assistant called DocAssist. Answer questions based ONLY on the provided context from the user's uploaded documents. If the context doesn't contain enough information, say "I couldn't find information about that in your documents." Be conversational but accurate. Do not make things up. Format your responses with markdown when helpful.'',
      user_content =
        js ''Context from uploaded documents:'' @ [10] @ js ''---'' @ [10] @ context
        @ [10] @ js ''---'' @ [10, 10]
        @ js ''Conversation summary: '' @ or_else summary (js ''No previous conversation.'')
        @ [10, 10] @ js ''Recent messages:'' @ [10] @ or_else (transcript recent) (js ''None.'')
        @ [10, 10] @ js ''Question: '' @ question,
      max_tokens = None, temperature = None, stream = True\<rparr>\<close>

text \<open>
  The two trailers appended to the streamed answer: a marker, the \<open>JSON.stringify\<close> of
  an object, and \<open>-->\<close>. The markers are those the consumer's regular expressions
  start with.
\<close>

definition usageJson :: "nat \<Rightarrow> nat \<Rightarrow> jsstring" where
  \<open>usageJson totalPrompt totalCompletion =
     js ''{"prompt":'' @ decimal totalPrompt
     @ js '',"completion":'' @ decimal totalCompletion
     @ js '',"total":'' @ decimal (totalPrompt + totalCompletion) @ js ''}''\<close>

definition summaryJson :: "jsstring \<Rightarrow> int \<Rightarrow> jsstring" where
  \<open>summaryJson text msgCount =
     js ''{"text":'' @ json_string text @ js '',"msgCount":'' @ show_int msgCount @ js ''}''\<close>

definition USAGE_MARKER :: jsstring where
  "USAGE_MARKER = [10, 10] @ js ''<!--USAGE:''"

definition SUMMARY_MARKER :: jsstring where
  "SUMMARY_MARKER = js ''<!--SUMMARY:''"

definition usageSentinel :: "nat \<Rightarrow> nat \<Rightarrow> jsstring" where
  "usageSentinel totalPrompt totalCompletion =
     USAGE_MARKER @ usageJson totalPrompt totalCompletion @ js ''-->''"

definition summarySentinel :: "jsstring \<Rightarrow> int \<Rightarrow> jsstring" where
  "summarySentinel text msgCount =
     SUMMARY_MARKER @ summaryJson text msgCount @ js ''-->''"

text \<open>
  The body of the stream: the loop over the chunks enqueues the bytes of every non-empty
  text and keeps the last usage seen; then the bytes of the sentinels are enqueued and
  the stream is closed. An error in the iteration errors the stream after what was
  enqueued. Token counts are whole numbers below \<open>2^53\<close>, where the sums of the
  code's numbers are the sums of naturals and \<open>JSON.stringify\<close> prints their digits.
\<close>

fun pump ::
  "stream_chunk list \<Rightarrow> tokens \<Rightarrow> nat list list \<Rightarrow> tokens \<times> nat list list" where
  "pump [] answerTokens enqueued = (answerTokens, enqueued)"
| "pump (c # cs) answerTokens enqueued =
     pump cs
       (case chunk_usage c of None \<Rightarrow> answerTokens | Some u \<Rightarrow> u)
       (case delta c of
          None \<Rightarrow> enqueued
        | Some t \<Rightarrow> if t \<noteq> [] then enqueued @ [encode t] else enqueued)"

datatype stream_end = Closed | Errored thrown

text \<open>A response: a JSON error body with its status, or a stream of byte chunks.\<close>

datatype response = Json nat jsstring | Stream "nat list list" stream_end

definition streamBody ::
  "completion_stream \<Rightarrow> tokens \<Rightarrow> tokens \<Rightarrow> jsstring \<Rightarrow> int \<Rightarrow> response" where
  "streamBody answerStream reformTokens sumTokens summaryText summaryCount =
     (let (answerTokens, enqueued) = pump (fst answerStream) \<lparr>prompt = 0, completion = 0\<rparr> [] in
      case snd answerStream of
        Some streamErr \<Rightarrow> Stream enqueued (Errored streamErr)
      | None \<Rightarrow>
          let totalPrompt = prompt answerTokens + prompt reformTokens + prompt sumTokens;
              totalCompletion =
                completion answerTokens + completion reformTokens + completion sumTokens
          in Stream
               (enqueued @ [encode (usageSentinel totalPrompt totalCompletion)]
                @ (if summaryText \<noteq> []
                   then [encode (summarySentinel summaryText summaryCount)] else []))
               Closed)"

text \<open>
  The request body as \<open>req.json()\<close> gives it: each field is \<open>None\<close> when absent.
  \<open>POST\<close> returns the calls it made to its collaborators, in order, and the response.
\<close>

record body =
  req_messages :: "message list option"
  req_sessionId :: "jsstring option"
  req_selectedDocuments :: "jsstring list option"
  req_summary :: "jsstring option"
  req_summaryMsgCount :: "int option"

text \<open>The \<open>try\<close> block of \<open>POST\<close>; \<open>Inl\<close> is what it throws.\<close>

definition handleChat ::
  "'v services \<Rightarrow> message list \<Rightarrow> jsstring \<Rightarrow> jsstring list option \<Rightarrow> jsstring \<Rightarrow> int
     \<Rightarrow> 'v call list \<times> (thrown + response)" where
  "handleChat srv messages sessionId selectedDocuments existingSummary summaryMsgCount =
     (let lastMessage = last messages;
          previousMessages = js_slice messages 0 (- 1)
      in
      case manageMemory (createChat srv) previousMessages existingSummary summaryMsgCount of
        (calls1, Inl e) \<Rightarrow> (map ChatCall calls1, Inl e)
      | (calls1, Inr mem) \<Rightarrow>
      (case reformulateQuery (createChat srv) (content lastMessage)
              (currentSummary mem) (recentMessages mem) of
         (calls2, Inl e) \<Rightarrow> (map ChatCall (calls1 @ calls2), Inl e)
       | (calls2, Inr reform) \<Rightarrow>
       (let calls3 = map ChatCall (calls1 @ calls2) @ [EmbedCall (query reform)] in
        case embedText srv (query reform) of
          Inl e \<Rightarrow> (calls3, Inl e)
        | Inr queryVector \<Rightarrow>
        (let filter = (case selectedDocuments of
                         None \<Rightarrow> None
                       | Some docs \<Rightarrow> if length docs > 0 then Some docs else None);
             calls4 = calls3 @ [QueryCall sessionId queryVector 10 filter]
         in
         case queryChunks srv sessionId queryVector 10 filter of
           Inl e \<Rightarrow> (calls4, Inl e)
         | Inr results \<Rightarrow>
         (let request = answerRequest (buildContext results) (currentSummary mem)
                          (recentMessages mem) (content lastMessage);
              calls5 = calls4 @ [StreamCall request]
          in
          case createStream srv request of
            Inl e \<Rightarrow> (calls5, Inl e)
          | Inr answerStream \<Rightarrow>
              (calls5,
               Inr (streamBody answerStream (query_tokens reform) (summaryTokens mem)
                      (currentSummary mem) (currentSummaryMsgCount mem))))))))"

text \<open>\<open>error instanceof Error ? error.message : "Chat failed"\<close>\<close>

definition error_message :: "thrown \<Rightarrow> jsstring" where
  "error_message e = (case e of Error message \<Rightarrow> message | Thrown \<Rightarrow> js ''Chat failed'')"

definition POST :: "'v services \<Rightarrow> body option \<Rightarrow> 'v call list \<times> response" where
  "POST srv request =
     (case request of
        None \<Rightarrow> ([], Json 400 (js ''Invalid request body''))
      | Some body \<Rightarrow>
          if (case req_sessionId body of None \<Rightarrow> True | Some sessionId \<Rightarrow> sessionId = [])
          then ([], Json 400 (js ''Missing sessionId''))
          else if \<not> apiKeySet srv
          then ([], Json 500 (js ''OPENAI_API_KEY not configured''))
          else if (case req_messages body of
                     None \<Rightarrow> True
                   | Some messages \<Rightarrow> messages = [] \<or> role (last messages) \<noteq> js ''user'')
          then ([], Json 400 (js ''No user message found''))
          else
            (case handleChat srv (the (req_messages body)) (the (req_sessionId body))
                    (req_selectedDocuments body)
                    (case req_summary body of None \<Rightarrow> [] | Some s \<Rightarrow> s)
                    (case req_summaryMsgCount body of None \<Rightarrow> 0 | Some n \<Rightarrow> n) of
               (calls, Inr response) \<Rightarrow> (calls, response)
             | (calls, Inl e) \<Rightarrow> (calls, Json 500 (error_message e))))"

section \<open>The upload route (src/app/api/upload/route.ts)\<close>

text \<open>
  The form data of an upload: the file (its name, size and bytes) and the session id,
  each \<open>None\<close> when absent. The route's collaborators are the document parser, the
  embedding service, the vector store and the source of document ids.
\<close>

record upload_file =
  fileName :: jsstring
  fileSize :: nat
  buffer :: "nat list"

record form =
  form_file :: "upload_file option"
  form_sessionId :: "jsstring option"

text \<open>A vector as it is upserted; \<open>vector_values\<close> is \<open>None\<close> for an embedding that is missing.\<close>

record 'e vector =
  vector_id :: jsstring
  vector_values :: "'e option"
  md_text :: jsstring
  md_parentText :: jsstring
  md_parentId :: jsstring
  md_childIndex :: nat
  md_source :: jsstring
  md_chunkIndex :: nat
  md_docId :: jsstring

record 'e upload_services =
  parseDocument :: "nat list \<Rightarrow> jsstring \<Rightarrow> thrown + jsstring"
  embedTexts :: "jsstring list \<Rightarrow> thrown + 'e list"
  upsertChunks :: "jsstring \<Rightarrow> 'e vector list \<Rightarrow> thrown option"
  uuidv4 :: jsstring

datatype 'e upload_call =
    ParseCall "nat list" jsstring
  | EmbedTextsCall "jsstring list"
  | UpsertCall jsstring "'e vector list"

record upload_summary =
  summary_id :: jsstring
  summary_fileName :: jsstring
  chunkCount :: nat
  parentCount :: nat
  summary_fileSize :: nat

datatype upload_response = Refused nat jsstring | Uploaded upload_summary

text \<open>
  \<open>parentMap.get(child.parentId) ?? child.text\<close>, where \<open>parentMap\<close> is built from the
  parents in order, a later entry replacing an earlier one with the same id.
\<close>

definition parentText_of :: "ParentChunk list \<Rightarrow> ChildChunk \<Rightarrow> jsstring" where
  "parentText_of parents child =
     (case map_of (rev (map (\<lambda>p. (id_p p, text_p p)) parents)) (parentId child) of
        None \<Rightarrow> text_c child
      | Some t \<Rightarrow> t)"

definition mkVectors ::
  "jsstring \<Rightarrow> jsstring \<Rightarrow> ParentChunk list \<Rightarrow> ChildChunk list \<Rightarrow> 'e list \<Rightarrow> 'e vector list" where
  "mkVectors docId source parents children embeddings =
     map (\<lambda>(i, child).
            \<lparr>vector_id = docId @ js ''-c'' @ decimal i,
             vector_values = (if i < length embeddings then Some (embeddings ! i) else None),
             md_text = text_c child,
             md_parentText = parentText_of parents child,
             md_parentId = parentId child,
             md_childIndex = childIndex child,
             md_source = source,
             md_chunkIndex = index_c child,
             md_docId = docId\<rparr>)
       (enumerate 0 children)"

text \<open>\<open>error instanceof Error ? error.message : "Upload failed"\<close>\<close>

definition upload_error_message :: "thrown \<Rightarrow> jsstring" where
  "upload_error_message e =
     (case e of Error message \<Rightarrow> message | Thrown \<Rightarrow> js ''Upload failed'')"

text \<open>
  \<open>POST\<close> of the upload route. The request is the form data, or what \<open>req.formData()\<close>
  throws. The result is the calls made to the collaborators, in order, and the
  response; it is \<open>None\<close> when the chunker does not return.
\<close>

definition uploadPOST ::
  "'e upload_services \<Rightarrow> thrown + form \<Rightarrow> ('e upload_call list \<times> upload_response) option" where
  "uploadPOST srv request =
     (case request of
        Inl e \<Rightarrow> Some ([], Refused 500 (upload_error_message e))
      | Inr formData \<Rightarrow>
     (case form_file formData of
        None \<Rightarrow> Some ([], Refused 400 (js ''No file provided''))
      | Some file \<Rightarrow>
     (if (case form_sessionId formData of None \<Rightarrow> True | Some sessionId \<Rightarrow> sessionId = [])
      then Some ([], Refused 400 (js ''No sessionId provided''))
      else
        let sessionId = the (form_sessionId formData);
            calls1 = [ParseCall (buffer file) (fileName file)]
        in
        case parseDocument srv (buffer file) (fileName file) of
          Inl e \<Rightarrow> Some (calls1, Refused 500 (upload_error_message e))
        | Inr text \<Rightarrow>
        if trim text = []
        then Some (calls1, Refused 400 (js ''Could not extract text from file''))
        else
        (case parentChildChunk text 2000 200 400 50 of
           None \<Rightarrow> None
         | Some (parents, children) \<Rightarrow>
         (let childTexts = map text_c children;
              calls2 = calls1 @ [EmbedTextsCall childTexts]
          in
          case embedTexts srv childTexts of
            Inl e \<Rightarrow> Some (calls2, Refused 500 (upload_error_message e))
          | Inr embeddings \<Rightarrow>
          (let docId = uuidv4 srv;
               vectors = mkVectors docId (fileName file) parents children embeddings;
               calls3 = calls2 @ [UpsertCall sessionId vectors]
           in
           case upsertChunks srv sessionId vectors of
             Some e \<Rightarrow> Some (calls3, Refused 500 (upload_error_message e))
           | None \<Rightarrow>
               Some (calls3,
                     Uploaded \<lparr>summary_id = docId, summary_fileName = fileName file,
                               chunkCount = length children, parentCount = length parents,
                               summary_fileSize = fileSize file\<rparr>)))))))"

section \<open>The consumer of the stream (src/components/ChatView.tsx)\<close>

text \<open>
  The two regular expressions of \<open>extractSentinels\<close> are a marker followed by
  \<open>(.*?)-->\s*$\<close>. Without the \<open>s\<close> flag \<open>.\<close> matches any code unit but a line
  terminator. \<open>lazy_payload\<close> is the match of \<open>(.*?)-->\s*$\<close> at the start of a string:
  the shortest payload after which \<open>-->\<close> and only whitespace remain.
\<close>

definition is_line_terminator :: "nat \<Rightarrow> bool" where
  "is_line_terminator c \<longleftrightarrow> c \<in> {10, 13, 8232, 8233}"

fun lazy_payload :: "jsstring \<Rightarrow> jsstring option" where
  "lazy_payload [] = None"
| "lazy_payload (c # cs) =
     (if prefix (js ''-->'') (c # cs) \<and> list_all is_ws (drop 3 (c # cs)) then Some []
      else if is_line_terminator c then None
      else map_option ((#) c) (lazy_payload cs))"

text \<open>
  \<open>text.match(/marker(.*?)-->\s*$/)\<close> tries the start positions from the left: the
  index of the match and the payload captured, or \<open>None\<close> for no match.
\<close>

fun regex_match :: "jsstring \<Rightarrow> jsstring \<Rightarrow> nat \<Rightarrow> (nat \<times> jsstring) option" where
  "regex_match marker [] i = None"
| "regex_match marker (c # cs) i =
     (if prefix marker (c # cs)
      then (case lazy_payload (drop (length marker) (c # cs)) of
              Some payload \<Rightarrow> Some (i, payload)
            | None \<Rightarrow> regex_match marker cs (i + 1))
      else regex_match marker cs (i + 1))"

text \<open>
  \<open>JSON.parse\<close> is a parameter, once for each payload type: \<open>None\<close> is a payload that
  does not parse (the exception is caught and the value stays \<open>null\<close>).
\<close>

record ('u, 's) sentinels =
  cleanText :: jsstring
  usage :: "'u option"
  summary :: "'s option"

definition extractSentinels ::
  "(jsstring \<Rightarrow> 'u option) \<Rightarrow> (jsstring \<Rightarrow> 's option) \<Rightarrow> jsstring \<Rightarrow> ('u, 's) sentinels" where
  "extractSentinels parseUsage parseSummary text =
     (let (cleanText1, summary) =
            (case regex_match SUMMARY_MARKER text 0 of
               Some (index, payload) \<Rightarrow> (take index text, parseSummary payload)
             | None \<Rightarrow> (text, None));
          (cleanText2, usage) =
            (case regex_match USAGE_MARKER cleanText1 0 of
               Some (index, payload) \<Rightarrow> (take index cleanText1, parseUsage payload)
             | None \<Rightarrow> (cleanText1, None))
      in \<lparr>cleanText = cleanText2, usage = usage, summary = summary\<rparr>)"

section \<open>A conversation threaded through the memory manager\<close>

text \<open>
  The caller owns the memory state: it sends it with every request and stores the one
  the response carries. \<open>thread\<close> runs the memory management block over the requests
  of one conversation in order and returns the caller's state after each. A request is
  the completion service as it behaves during it, the prior turns it sends, and whether
  the state it computes reaches the caller: it does not when the block throws, when a
  later step of the request fails or the stream breaks, or when no SUMMARY trailer is
  written because the summary is empty. The caller then keeps the state it had.
\<close>

record memory_state =
  state_summary :: jsstring
  summarizedThroughIndex :: int

record turn_request =
  service :: completions
  priorTurns :: "message list"
  delivered :: bool

fun thread :: "memory_state \<Rightarrow> turn_request list \<Rightarrow> memory_state list" where
  "thread st [] = []"
| "thread st (request # later) =
     (let st' = (case snd (manageMemory (service request) (priorTurns request)
                            (state_summary st) (summarizedThroughIndex st)) of
                   Inl e \<Rightarrow> st
                 | Inr mem \<Rightarrow>
                     if delivered request
                     then \<lparr>state_summary = currentSummary mem,
                           summarizedThroughIndex = currentSummaryMsgCount mem\<rparr>
                     else st)
      in st' # thread st' later)"

text \<open>Append-only growth: each list of prior turns extends the one before.\<close>

fun growing :: "'a list list \<Rightarrow> bool" where
  "growing [] = True"
| "growing [p] = True"
| "growing (p # q # later) = (prefix p q \<and> growing (q # later))"

text \<open>
  First match wins, in the words of the specification: a match is kept when it has no
  parent id, or no earlier match has its parent id.
\<close>

fun first_matches_after :: "match list \<Rightarrow> match list \<Rightarrow> match list" where
  "first_matches_after earlier [] = []"
| "first_matches_after earlier (r # results) =
     (if pid_of r = [] \<or> pid_of r \<notin> pid_of ` set earlier then [r] else [])
     @ first_matches_after (earlier @ [r]) results"

definition first_matches :: "match list \<Rightarrow> match list" where
  "first_matches results = first_matches_after [] results"

abbreviation idx :: "memory_state \<Rightarrow> int" where
  "idx \<equiv> summarizedThroughIndex"

section \<open>Example values\<close>

text \<open>
  Two messages, three completion services (one that summarizes, one that fails, one that
  answers with blanks), a set of services whose completion service is down, two request
  bodies (seven earlier messages and a new question, and two earlier messages and a new
  question), and a conversation of three requests with 0, 2 and 8 prior turns.
\<close>

definition m_user :: message where
  "m_user = \<lparr>role = js ''user'', content = js ''What is it?''\<rparr>"

definition m_ai :: message where
  "m_ai = \<lparr>role = js ''assistant'', content = js ''A report.''\<rparr>"

definition summarizer :: completions where
  "summarizer request =
     Inr \<lparr>message_content = Some (js ''They discussed a report.''),
          prompt_tokens = Some 40, completion_tokens = Some 7\<rparr>"

definition failing :: completions where
  "failing request = Inl (Error (js ''429 rate limit''))"

definition down :: "nat services" where
  "down = \<lparr>apiKeySet = True, createChat = failing,
           createStream = (\<lambda>request. Inr ([], None)),
           embedText = (\<lambda>text. Inr 0),
           queryChunks = (\<lambda>namespace vector topK filter. Inr [])\<rparr>"

definition long_chat :: body where
  "long_chat =
     \<lparr>req_messages =
        Some [m_user, m_ai, m_user, m_ai, m_user, m_ai, m_user, m_user],
      req_sessionId = Some (js ''s1''), req_selectedDocuments = None,
      req_summary = None, req_summaryMsgCount = None\<rparr>"

definition short_chat :: body where
  "short_chat =
     \<lparr>req_messages = Some [m_user, m_ai, m_user],
      req_sessionId = Some (js ''s1''), req_selectedDocuments = None,
      req_summary = None, req_summaryMsgCount = None\<rparr>"

definition silent :: completions where
  "silent request =
     Inr \<lparr>message_content = Some (js ''   ''), prompt_tokens = Some 55,
          completion_tokens = Some 0\<rparr>"


definition growing_chat :: "turn_request list" where
  "growing_chat =
     [\<lparr>service = summarizer, priorTurns = [], delivered = True\<rparr>,
      \<lparr>service = summarizer, priorTurns = [m_user, m_ai], delivered = True\<rparr>,
      \<lparr>service = summarizer,
        priorTurns = [m_user, m_ai, m_user, m_ai, m_user, m_ai, m_user, m_ai],
        delivered = True\<rparr>]"

text \<open>Search results for the examples: two hits of parent p-0 around one of p-1.\<close>

definition hit_a :: match where
  "hit_a = \<lparr>match_id = js ''d-c0'', score = 0.9, meta_parentId = Some (js ''p-0''),
             meta_parentText = Some (js ''Alpha''), meta_text = Some (js ''Al'')\<rparr>"

definition hit_b :: match where
  "hit_b = \<lparr>match_id = js ''d-c7'', score = 0.8, meta_parentId = Some (js ''p-1''),
             meta_parentText = Some (js ''Beta''), meta_text = Some (js ''Be'')\<rparr>"

definition hit_a' :: match where
  "hit_a' = \<lparr>match_id = js ''d-c1'', score = 0.7, meta_parentId = Some (js ''p-0''),
              meta_parentText = Some (js ''Alpha''), meta_text = Some (js ''pha'')\<rparr>"

text \<open>
  Two hits of parent p-2: the first carries no text at all, the second the parent's text.
\<close>

definition hit_bare :: match where
  "hit_bare = \<lparr>match_id = js ''d-c2'', score = 0.9, meta_parentId = Some (js ''p-2''),
                meta_parentText = None, meta_text = None\<rparr>"

definition hit_late :: match where
  "hit_late = \<lparr>match_id = js ''d-c3'', score = 0.8, meta_parentId = Some (js ''p-2''),
                meta_parentText = Some (js ''Gamma''), meta_text = Some (js ''Ga'')\<rparr>"

text \<open>
  A text that the upload route chunks: 249 times ". ", a full stop, a blank line and
  1500 spaces. A plain text file holding a given text, and collaborators that never
  fail, with a parser that yields that text.
\<close>

definition stops_then_blanks :: jsstring where
  "stops_then_blanks = concat (replicate 249 [46, 32]) @ [46] @ [10, 10] @ replicate 1500 32"

definition parsing :: "jsstring \<Rightarrow> nat upload_services" where
  "parsing text = \<lparr>parseDocument = (\<lambda>bytes name. Inr text),
                    embedTexts = (\<lambda>texts. Inr (map length texts)),
                    upsertChunks = (\<lambda>namespace vectors. None),
                    uuidv4 = js ''d1''\<rparr>"

definition text_file :: "jsstring \<Rightarrow> upload_file" where
  "text_file text = \<lparr>fileName = js ''notes.txt'', fileSize = length (encode text),
                      buffer = encode text\<rparr>"

section \<open>The chunker: splitting and merging keep the content\<close>

lemma sliceLoop_total:
  assumes "0 < n"
  shows "\<exists>ps. sliceLoop text n i parts = Some (parts @ ps) \<and> concat ps = drop i text
            \<and> (\<forall>p \<in> set ps. length p \<le> n)"
  using assms
proof (induction "length text - i" arbitrary: i parts rule: less_induct)
  case less
  show ?case
  proof (cases "i < length text")
    case False
    then show ?thesis by (subst sliceLoop.simps) simp
  next
    case True
    have "length text - (i + n) < length text - i" using True less.prems by arith
    from less.hyps [OF this less.prems, of "parts @ [take n (drop i text)]"]
    obtain ps where ps: "sliceLoop text n (i + n) (parts @ [take n (drop i text)])
          = Some ((parts @ [take n (drop i text)]) @ ps)"
        "concat ps = drop (i + n) text" "\<forall>p \<in> set ps. length p \<le> n"
      by blast
    have "sliceLoop text n i parts = Some (parts @ (take n (drop i text) # ps))"
      using True ps(1) by (subst sliceLoop.simps) simp
    moreover have "concat (take n (drop i text) # ps) = drop i text"
      using ps(2) by (simp add: add.commute [of i n] flip: drop_drop)
    moreover have "\<forall>p \<in> set (take n (drop i text) # ps). length p \<le> n"
      using ps(3) by simp
    ultimately show ?thesis by blast
  qed
qed

lemma filter_sep_prefix:
  assumes "\<forall>c \<in> set sep. \<not> P c" and "prefix sep xs"
  shows "filter P (drop (length sep) xs) = filter P xs"
proof -
  from assms(2) obtain ys where "xs = sep @ ys" by (auto simp: prefix_def)
  with assms(1) show ?thesis by (simp add: filter_empty_conv)
qed

lemma split_from_filter:
  "\<forall>c \<in> set sep. \<not> P c \<Longrightarrow>
     filter P (concat (split_from sep cur xs)) = filter P (cur @ xs)"
proof (induction sep cur xs rule: split_from.induct)
  case (1 sep cur)
  then show ?case by simp
next
  case (2 sep cur c cs)
  show ?case
  proof (cases "sep \<noteq> [] \<and> prefix sep (c # cs)")
    case True
    then have "filter P (concat (split_from sep [] (drop (length sep) (c # cs))))
                 = filter P (drop (length sep) (c # cs))"
      using 2 by simp
    also have "\<dots> = filter P (c # cs)"
      using filter_sep_prefix [of sep P "c # cs"] True "2.prems" by blast
    finally have A: "filter P (concat (split_from sep [] (drop (length sep) (c # cs))))
                 = filter P (c # cs)" .
    from True have s: "split_from sep cur (c # cs)
                 = cur # split_from sep [] (drop (length sep) (c # cs))" by simp
    show ?thesis unfolding s by (simp only: concat.simps filter_append A)
  next
    case False
    then have s: "split_from sep cur (c # cs) = split_from sep (cur @ [c]) cs" by auto
    show ?thesis unfolding s using 2(2) [OF False "2.prems"] by simp
  qed
qed

lemma pack_ok:
  assumes rec: "\<And>piece. \<exists>sub. recurse piece = Some sub
                   \<and> filter P (concat sub) = filter P piece \<and> (\<forall>s \<in> set sub. length s \<le> n)"
    and sep: "\<forall>c \<in> set sep. \<not> P c"
  shows "\<forall>s \<in> set results. length s \<le> n \<Longrightarrow> length current \<le> n \<Longrightarrow>
         \<exists>out. pack recurse sep n results current pieces = Some out
           \<and> filter P (concat out) = filter P (concat results @ current @ concat pieces)
           \<and> (\<forall>s \<in> set out. length s \<le> n)"
proof (induction pieces arbitrary: results current)
  case Nil
  then show ?case by auto
next
  case (Cons piece pieces)
  let ?cand = "if current \<noteq> [] then current @ sep @ piece else piece"
  have cand: "filter P ?cand = filter P (current @ piece)"
    using sep by (auto simp: filter_empty_conv)
  let ?res' = "if current \<noteq> [] then results @ [current] else results"
  have res': "\<forall>s \<in> set ?res'. length s \<le> n" "concat ?res' = concat results @ current"
    using Cons.prems by auto
  show ?case
  proof (cases "length ?cand \<le> n")
    case True
    from Cons.IH [OF Cons.prems(1) True]
    obtain out where "pack recurse sep n results ?cand pieces = Some out"
      "filter P (concat out) = filter P (concat results @ ?cand @ concat pieces)"
      "\<forall>s \<in> set out. length s \<le> n" by blast
    then show ?thesis using True cand by (auto simp: Let_def)
  next
    case False
    show ?thesis
    proof (cases "length piece > n")
      case big: True
      from rec [of piece] obtain sub where sub: "recurse piece = Some sub"
        "filter P (concat sub) = filter P piece" "\<forall>s \<in> set sub. length s \<le> n" by blast
      have "\<forall>s \<in> set (?res' @ sub). length s \<le> n" using res'(1) sub(3) by auto
      from Cons.IH [OF this, of "[]"]
      obtain out where out: "pack recurse sep n (?res' @ sub) [] pieces = Some out"
        "filter P (concat out) = filter P (concat (?res' @ sub) @ [] @ concat pieces)"
        "\<forall>s \<in> set out. length s \<le> n" by auto
      have "pack recurse sep n results current (piece # pieces) = Some out"
        using False big sub(1) out(1) by (simp add: Let_def)
      moreover have "filter P (concat out)
           = filter P (concat results @ current @ concat (piece # pieces))"
        using out(2) sub(2) res'(2) by simp
      ultimately show ?thesis using out(3) by blast
    next
      case small: False
      then have "length piece \<le> n" by simp
      from Cons.IH [OF res'(1) this]
      obtain out where out: "pack recurse sep n ?res' piece pieces = Some out"
        "filter P (concat out) = filter P (concat ?res' @ piece @ concat pieces)"
        "\<forall>s \<in> set out. length s \<le> n" by blast
      have "pack recurse sep n results current (piece # pieces) = Some out"
        using False small out(1) by (simp add: Let_def)
      moreover have "filter P (concat out)
           = filter P (concat results @ current @ concat (piece # pieces))"
        using out(2) res'(2) by simp
      ultimately show ?thesis using out(3) by blast
    qed
  qed
qed

lemma splitRecursive_ok:
  assumes "0 < n"
  shows "\<forall>sep \<in> set seps. \<forall>c \<in> set sep. \<not> P c \<Longrightarrow>
         \<exists>out. splitRecursive text seps n = Some out
           \<and> filter P (concat out) = filter P text \<and> (\<forall>s \<in> set out. length s \<le> n)"
proof (induction seps arbitrary: "text")
  case Nil
  show ?case
  proof (cases "length text \<le> n")
    case True
    then show ?thesis by simp
  next
    case False
    from sliceLoop_total [OF assms, of "text" 0 "[]"] False show ?thesis by auto
  qed
next
  case (Cons sep rest)
  show ?case
  proof (cases "length text \<le> n")
    case True
    then show ?thesis by simp
  next
    case False
    let ?pieces = "if sep = [] then [text] else js_split text sep"
    have pieces: "filter P (concat ?pieces) = filter P text"
      using split_from_filter [of sep P "[]" "text"] Cons.prems
      by (simp add: js_split_def)
    have rec: "\<And>piece. \<exists>sub. splitRecursive piece rest n = Some sub
                   \<and> filter P (concat sub) = filter P piece \<and> (\<forall>s \<in> set sub. length s \<le> n)"
      using Cons.IH Cons.prems by simp
    have sep: "\<forall>c \<in> set sep. \<not> P c" using Cons.prems by simp
    from pack_ok [of "\<lambda>piece. splitRecursive piece rest n" P n sep "[]" "[]" "?pieces", OF rec sep]
    obtain out where "pack (\<lambda>piece. splitRecursive piece rest n) sep n [] [] ?pieces = Some out"
      "filter P (concat out) = filter P (concat ?pieces)" "\<forall>s \<in> set out. length s \<le> n"
      by auto
    then show ?thesis using False pieces by auto
  qed
qed

lemma filter_dropWhile_ws:
  "\<forall>c. is_ws c \<longrightarrow> \<not> Q c \<Longrightarrow> filter Q (dropWhile is_ws s) = filter Q s"
  by (induction s) auto

lemma filter_trim: "\<forall>c. is_ws c \<longrightarrow> \<not> Q c \<Longrightarrow> filter Q (trim s) = filter Q s"
  by (simp add: trim_def filter_dropWhile_ws flip: rev_filter)

lemma length_trim: "length (trim s) \<le> length s"
proof -
  have "length (dropWhile is_ws xs) \<le> length xs" for xs :: jsstring
    by (induction xs) auto
  from this [of "rev (dropWhile is_ws s)"] this [of s] show ?thesis
    by (simp add: trim_def)
qed

lemma absorb_ok:
  assumes "\<forall>c. is_ws c \<longrightarrow> \<not> Q c"
  shows "filter Q (fst (absorb chunk ss n) @ concat (snd (absorb chunk ss n)))
           = filter Q (chunk @ concat ss)"
proof (induction ss arbitrary: chunk)
  case Nil
  show ?case by simp
next
  case (Cons s ss)
  have "is_ws 32" by (simp add: is_ws_def)
  then have "\<not> Q 32" using assms by blast
  then show ?case using Cons [of "chunk @ [32] @ trim s"] filter_trim [OF assms, of s]
    by simp
qed

lemma absorb_length:
  "length chunk \<le> n \<Longrightarrow> length (fst (absorb chunk ss n)) \<le> n"
proof (induction ss arbitrary: chunk)
  case Nil
  then show ?case by simp
next
  case (Cons s ss)
  show ?case
  proof (cases "length chunk + length s + 1 \<le> n")
    case True
    then have "length (chunk @ [32] @ trim s) \<le> n" using length_trim [of s] by simp
    from Cons.IH [OF this] True show ?thesis by simp
  next
    case False
    then show ?thesis using Cons.prems by simp
  qed
qed

lemma absorb_rest_bounded:
  "\<forall>s \<in> set ss. length s \<le> n \<Longrightarrow> \<forall>s \<in> set (snd (absorb chunk ss n)). length s \<le> n"
  by (induction ss arbitrary: chunk) auto

lemma mergeLoop_filter:
  assumes "\<forall>c. is_ws c \<longrightarrow> \<not> Q c"
  shows "filter Q (concat (mergeLoop ss n)) = filter Q (concat ss)"
proof (induction ss n rule: mergeLoop.induct)
  case (1 n)
  show ?case by simp
next
  case (2 s ss n)
  obtain chunk rest where a: "absorb (trim s) ss n = (chunk, rest)" by force
  have "filter Q (concat (mergeLoop rest n)) = filter Q (concat rest)"
    using 2 [OF a [symmetric] refl] .
  moreover have "filter Q (chunk @ concat rest) = filter Q (trim s @ concat ss)"
    using absorb_ok [OF assms, of "trim s" ss n] a by simp
  ultimately show ?case using a filter_trim [OF assms, of s]
    by (cases "chunk = []") auto
qed

lemma mergeLoop_length:
  "\<forall>s \<in> set ss. length s \<le> n \<Longrightarrow> \<forall>c \<in> set (mergeLoop ss n). length c \<le> n"
proof (induction ss n rule: mergeLoop.induct)
  case (1 n)
  show ?case by simp
next
  case (2 s ss n)
  obtain chunk rest where a: "absorb (trim s) ss n = (chunk, rest)" by force
  have "length (trim s) \<le> n" using "2.prems" length_trim [of s] by (simp add: le_trans)
  then have chunk: "length chunk \<le> n" using absorb_length [of "trim s" n ss] a by simp
  have "\<forall>s \<in> set rest. length s \<le> n"
    using absorb_rest_bounded [of ss n "trim s"] "2.prems" a by simp
  then have "\<forall>c \<in> set (mergeLoop rest n). length c \<le> n"
    using 2(1) [OF a [symmetric] refl] by blast
  then show ?case using a chunk by (cases "chunk = []") auto
qed

lemma stripFrom_overlapFrom: "stripFrom ov prev (overlapFrom ov prev rs) = rs"
  by (induction rs arbitrary: prev) (auto simp: Let_def)

lemma length_overlapFrom: "length (overlapFrom ov prev rs) = length rs"
  by (induction rs arbitrary: prev) auto

lemma overlapFrom_bound:
  "\<forall>r \<in> set rs. length r \<le> n \<Longrightarrow> \<forall>c \<in> set (overlapFrom ov prev rs). length c \<le> n + ov + 1"
  by (induction rs arbitrary: prev) (auto simp: slice_last_def)

lemma stripOverlap_mergeChunks: "stripOverlap ov (mergeChunks splits n ov) = mergeCore splits n"
proof (cases "length splits \<le> 1")
  case True
  have "length (filter (\<lambda>s. s \<noteq> []) (map trim splits)) \<le> length splits"
    using length_filter_le [of "\<lambda>s. s \<noteq> []" "map trim splits"] by (simp only: length_map)
  then have "length (filter (\<lambda>s. s \<noteq> []) (map trim splits)) \<le> 1"
    using True by (rule order_trans)
  then show ?thesis using True by (simp add: stripOverlap_def mergeChunks_def mergeCore_def)
next
  case False
  show ?thesis
  proof (cases "ov > 0 \<and> length (mergeLoop splits n) > 1")
    case True
    then obtain r rs where r: "mergeLoop splits n = r # rs" by (cases "mergeLoop splits n") auto
    show ?thesis using False True r
      by (simp add: stripOverlap_def mergeChunks_def mergeCore_def Let_def
            stripFrom_overlapFrom length_overlapFrom)
  next
    case no: False
    then show ?thesis using False
      by (auto simp add: stripOverlap_def mergeChunks_def mergeCore_def Let_def)
  qed
qed

lemma mergeCore_filter:
  assumes "\<forall>c. is_ws c \<longrightarrow> \<not> Q c"
  shows "filter Q (concat (mergeCore splits n)) = filter Q (concat splits)"
proof (cases "length splits \<le> 1")
  case True
  then consider "splits = []" | s where "splits = [s]"
    by (cases splits) (auto simp: Suc_le_eq)
  then show ?thesis
  proof cases
    case 1
    then show ?thesis by (simp add: mergeCore_def)
  next
    case 2
    have "filter Q (trim s) = filter Q s" by (rule filter_trim [OF assms])
    then have "trim s = [] \<Longrightarrow> filter Q s = []" by (metis filter.simps(1))
    then show ?thesis using 2 \<open>filter Q (trim s) = filter Q s\<close>
      by (cases "trim s = []") (simp_all add: mergeCore_def)
  qed
next
  case False
  then show ?thesis using mergeLoop_filter [OF assms] by (simp add: mergeCore_def)
qed

lemma mergeChunks_bound:
  assumes "\<forall>s \<in> set splits. length s \<le> n"
  shows "\<forall>c \<in> set (mergeChunks splits n ov). length c \<le> n + ov + 1"
proof (cases "length splits \<le> 1")
  case True
  have "length (trim s) \<le> n + ov + 1" if "s \<in> set splits" for s
  proof -
    have "length s \<le> n" using assms that by blast
    with length_trim [of s] show ?thesis by arith
  qed
  then show ?thesis using True by (auto simp: mergeChunks_def)
next
  case False
  have res: "\<forall>c \<in> set (mergeLoop splits n). length c \<le> n"
    using mergeLoop_length [OF assms] .
  show ?thesis
  proof (cases "ov > 0 \<and> length (mergeLoop splits n) > 1")
    case True
    then obtain r rs where r: "mergeLoop splits n = r # rs" by (cases "mergeLoop splits n") auto
    have "\<forall>c \<in> set (overlapFrom ov r rs). length c \<le> n + ov + 1"
      using overlapFrom_bound [of rs n ov r] res r by simp
    then show ?thesis using False True r res
      by (auto simp: mergeChunks_def Let_def intro: trans_le_add1)
  next
    case no: False
    have "\<forall>c \<in> set (mergeLoop splits n). length c \<le> n + ov + 1"
      using res by (auto intro: trans_le_add1)
    then show ?thesis using False no by (auto simp: mergeChunks_def Let_def)
  qed
qed

lemma SEPARATORS_filtered:
  "\<not> Q 10 \<Longrightarrow> \<not> Q 32 \<Longrightarrow> \<not> Q 46 \<Longrightarrow> \<forall>sep \<in> set SEPARATORS. \<forall>c \<in> set sep. \<not> Q c"
  by (simp add: SEPARATORS_def)

lemma splitAndMerge_ok:
  assumes "0 < n" and "\<forall>c. is_ws c \<longrightarrow> \<not> Q c" and "\<not> Q 46"
  shows "\<exists>out. splitAndMerge t n ov = Some out
           \<and> filter Q (concat (stripOverlap ov out)) = filter Q t
           \<and> (\<forall>c \<in> set out. length c \<le> n + ov + 1)"
proof -
  have "is_ws 10" "is_ws 32" by (simp_all add: is_ws_def)
  then have "\<not> Q 10" "\<not> Q 32" using assms(2) by blast+
  from splitRecursive_ok [OF assms(1) SEPARATORS_filtered [OF this assms(3)], of t]
  obtain raw where raw: "splitRecursive t SEPARATORS n = Some raw"
    "filter Q (concat raw) = filter Q t" "\<forall>s \<in> set raw. length s \<le> n" by blast
  have "splitAndMerge t n ov = Some (mergeChunks raw n ov)"
    using raw(1) by (simp add: splitAndMerge_def)
  moreover have "filter Q (concat (stripOverlap ov (mergeChunks raw n ov))) = filter Q t"
    using mergeCore_filter [OF assms(2), of raw n] raw(2)
    by (simp add: stripOverlap_mergeChunks)
  moreover note mergeChunks_bound [OF raw(3), of ov]
  ultimately show ?thesis by blast
qed

text \<open>
  The same pipeline keeps every non-whitespace character but the full stops of the
  ". " separators it drops.
\<close>

lemma stops_elided_refl: "stops_elided t (nonspace t)"
  by (induction t) (auto simp: nonspace_def)

lemma stops_elided_append:
  "stops_elided a u \<Longrightarrow> stops_elided b v \<Longrightarrow> stops_elided (a @ b) (u @ v)"
  by (induction a arbitrary: u) (auto split: if_splits)

lemma stop_before_space_Cons:
  "stop_before_space (c # cs) \<longleftrightarrow> c = 46 \<and> cs \<noteq> [] \<and> hd cs = 32 \<or> stop_before_space cs"
  by (cases cs) auto

lemma stops_elided_exact:
  "\<not> stop_before_space t \<Longrightarrow> stops_elided t u \<Longrightarrow> u = nonspace t"
proof (induction t arbitrary: u)
  case Nil
  then show ?case by (simp add: nonspace_def)
next
  case (Cons c cs)
  from Cons.prems(1) have no: "\<not> (c = 46 \<and> cs \<noteq> [] \<and> hd cs = 32)" "\<not> stop_before_space cs"
    by (simp_all add: stop_before_space_Cons)
  show ?case
  proof (cases "is_ws c")
    case True
    with Cons.IH [OF no(2)] Cons.prems(2) show ?thesis by (simp add: nonspace_def)
  next
    case False
    with Cons.prems(2) no(1) obtain us where "u = c # us" "stops_elided cs us"
      by (cases u) auto
    with Cons.IH [OF no(2)] False show ?thesis by (simp add: nonspace_def)
  qed
qed

lemma stops_elided_substance: "stops_elided t u \<Longrightarrow> substance u = substance t"
proof (induction t arbitrary: u)
  case Nil
  then show ?case by simp
next
  case (Cons c cs)
  show ?case
  proof (cases "is_ws c")
    case True
    with Cons show ?thesis by (simp add: substance_def)
  next
    case False
    with Cons.prems consider (keep) us where "u = c # us" "stops_elided cs us"
      | (leave) "c = 46" "stops_elided cs u"
      by (cases u) auto
    then show ?thesis
    proof cases
      case keep
      from Cons.IH [OF keep(2)] show ?thesis unfolding keep(1) by (simp add: substance_def)
    next
      case leave
      from Cons.IH [OF leave(2)] show ?thesis using leave(1) by (simp add: substance_def)
    qed
  qed
qed

lemma stops_elided_last:
  "stops_elided t u \<Longrightarrow> t \<noteq> [] \<Longrightarrow> \<not> is_ws (last t) \<Longrightarrow> u \<noteq> []"
  by (induction t arbitrary: u) (auto split: if_splits)

lemma stops_elided_sep: "sep \<in> set SEPARATORS \<Longrightarrow> stops_elided sep []"
  by (auto simp: SEPARATORS_def is_ws_def)

lemma split_from_pieces:
  "sep \<noteq> [] \<Longrightarrow>
     \<exists>p ps. split_from sep cur xs = p # ps \<and> p @ concat (map ((@) sep) ps) = cur @ xs"
proof (induction sep cur xs rule: split_from.induct)
  case (1 sep cur)
  show ?case by simp
next
  case (2 sep cur c cs)
  show ?case
  proof (cases "prefix sep (c # cs)")
    case True
    then have here: "sep \<noteq> [] \<and> prefix sep (c # cs)" using "2.prems" by simp
    from "2.IH"(1) [OF here "2.prems"]
    obtain q qs where q: "split_from sep [] (drop (length sep) (c # cs)) = q # qs"
      "q @ concat (map ((@) sep) qs) = drop (length sep) (c # cs)" by auto
    from True have "sep @ drop (length sep) (c # cs) = c # cs"
      by (auto simp: prefix_def)
    then have "cur @ concat (map ((@) sep) (q # qs)) = cur @ c # cs" using q(2) by simp
    moreover have "split_from sep cur (c # cs) = cur # q # qs" using here q(1) by simp
    ultimately show ?thesis by blast
  next
    case False
    then have no: "\<not> (sep \<noteq> [] \<and> prefix sep (c # cs))" by simp
    have "split_from sep cur (c # cs) = split_from sep (cur @ [c]) cs" using False by simp
    with "2.IH"(2) [OF no "2.prems"] show ?thesis by simp
  qed
qed

lemma pack_elides:
  assumes rec: "\<And>piece. \<exists>sub. recurse piece = Some sub
                   \<and> stops_elided piece (nonspace (concat sub))"
    and sep: "stops_elided sep []"
  shows "stops_elided tx (nonspace (concat results @ current)) \<Longrightarrow>
         \<exists>out. pack recurse sep n results current pieces = Some out
           \<and> stops_elided (tx @ concat (map ((@) sep) pieces)) (nonspace (concat out))"
proof (induction pieces arbitrary: tx results current)
  case Nil
  then show ?case by auto
next
  case (Cons piece pieces)
  let ?cand = "if current \<noteq> [] then current @ sep @ piece else piece"
  let ?res' = "if current \<noteq> [] then results @ [current] else results"
  have res': "concat ?res' = concat results @ current" by simp
  have step: "stops_elided (tx @ sep @ piece) (nonspace (concat results @ current) @ v)"
    if "stops_elided piece v" for v
    using stops_elided_append [OF Cons.prems stops_elided_append [OF sep that]] by simp
  show ?case
  proof (cases "length ?cand \<le> n")
    case True
    have "stops_elided (tx @ sep @ piece) (nonspace (concat results @ ?cand))"
    proof (cases "current = []")
      case True
      with step [OF stops_elided_refl [of piece]] show ?thesis by (simp add: nonspace_def)
    next
      case False
      have "stops_elided (sep @ piece) (nonspace (sep @ piece))" by (rule stops_elided_refl)
      from stops_elided_append [OF Cons.prems this] False show ?thesis
        by (simp add: nonspace_def)
    qed
    from Cons.IH [OF this]
    obtain out where "pack recurse sep n results ?cand pieces = Some out"
      "stops_elided ((tx @ sep @ piece) @ concat (map ((@) sep) pieces)) (nonspace (concat out))"
      by blast
    then show ?thesis using True by (auto simp: Let_def)
  next
    case False
    show ?thesis
    proof (cases "length piece > n")
      case big: True
      from rec [of piece] obtain sub where sub: "recurse piece = Some sub"
        "stops_elided piece (nonspace (concat sub))" by blast
      have "stops_elided (tx @ sep @ piece) (nonspace (concat (?res' @ sub) @ []))"
        using step [OF sub(2)] by (auto simp: nonspace_def)
      from Cons.IH [OF this]
      obtain out where out: "pack recurse sep n (?res' @ sub) [] pieces = Some out"
        "stops_elided ((tx @ sep @ piece) @ concat (map ((@) sep) pieces)) (nonspace (concat out))"
        by blast
      have "pack recurse sep n results current (piece # pieces) = Some out"
        using False big sub(1) out(1) by (simp add: Let_def)
      then show ?thesis using out(2) by simp
    next
      case small: False
      have "stops_elided (tx @ sep @ piece) (nonspace (concat ?res' @ piece))"
        using step [OF stops_elided_refl [of piece]] by (auto simp: nonspace_def)
      from Cons.IH [OF this]
      obtain out where out: "pack recurse sep n ?res' piece pieces = Some out"
        "stops_elided ((tx @ sep @ piece) @ concat (map ((@) sep) pieces)) (nonspace (concat out))"
        by blast
      have "pack recurse sep n results current (piece # pieces) = Some out"
        using False small out(1) by (simp add: Let_def)
      then show ?thesis using out(2) by simp
    qed
  qed
qed

lemma pack_first_elides:
  assumes rec: "\<And>piece. \<exists>sub. recurse piece = Some sub
                   \<and> stops_elided piece (nonspace (concat sub))"
    and sep: "stops_elided sep []"
  shows "\<exists>out. pack recurse sep n [] [] (p # ps) = Some out
           \<and> stops_elided (p @ concat (map ((@) sep) ps)) (nonspace (concat out))"
proof (cases "length p \<le> n")
  case True
  have "stops_elided p (nonspace (concat [] @ p))" using stops_elided_refl [of p] by simp
  from pack_elides [of recurse sep p "[]" p n ps, OF rec sep this] True
  show ?thesis by simp
next
  case False
  from rec [of p] obtain sub where sub: "recurse p = Some sub"
    "stops_elided p (nonspace (concat sub))" by blast
  then have "stops_elided p (nonspace (concat sub @ []))" by simp
  from pack_elides [of recurse sep p sub "[]" n ps, OF rec sep this] False sub(1)
  show ?thesis by simp
qed

lemma splitRecursive_elides:
  assumes "0 < n"
  shows "\<forall>sep \<in> set seps. stops_elided sep [] \<Longrightarrow>
         \<exists>out. splitRecursive text seps n = Some out
           \<and> stops_elided text (nonspace (concat out))"
proof (induction seps arbitrary: "text")
  case Nil
  show ?case
  proof (cases "length text \<le> n")
    case True
    then show ?thesis by (simp add: stops_elided_refl)
  next
    case False
    from sliceLoop_total [OF assms, of "text" 0 "[]"] False show ?thesis
      by (auto simp: stops_elided_refl)
  qed
next
  case (Cons sep rest)
  show ?case
  proof (cases "length text \<le> n")
    case True
    then show ?thesis by (simp add: stops_elided_refl)
  next
    case False
    let ?pieces = "if sep = [] then [text] else js_split text sep"
    obtain p ps where pieces: "?pieces = p # ps" "p @ concat (map ((@) sep) ps) = text"
      using split_from_pieces [of sep "[]" "text"] by (cases "sep = []") (auto simp: js_split_def)
    have rec: "\<And>piece. \<exists>sub. splitRecursive piece rest n = Some sub
                   \<and> stops_elided piece (nonspace (concat sub))"
      using Cons.IH Cons.prems by simp
    have sep: "stops_elided sep []" using Cons.prems by simp
    from pack_first_elides [of "\<lambda>piece. splitRecursive piece rest n" sep n p ps, OF rec sep]
    obtain out where "pack (\<lambda>piece. splitRecursive piece rest n) sep n [] [] (p # ps) = Some out"
      "stops_elided text (nonspace (concat out))"
      using pieces(2) by auto
    then show ?thesis using False pieces(1) by auto
  qed
qed

lemma splitAndMerge_elides:
  assumes "0 < n"
  shows "\<exists>out. splitAndMerge t n ov = Some out
           \<and> stops_elided t (nonspace (concat (stripOverlap ov out)))"
proof -
  have "\<forall>sep \<in> set SEPARATORS. stops_elided sep []" using stops_elided_sep by blast
  from splitRecursive_elides [OF assms this, of t]
  obtain raw where raw: "splitRecursive t SEPARATORS n = Some raw"
    "stops_elided t (nonspace (concat raw))" by blast
  have "nonspace (concat (mergeCore raw n)) = nonspace (concat raw)"
    unfolding nonspace_def by (rule mergeCore_filter) simp
  then show ?thesis using raw
    by (simp add: splitAndMerge_def stripOverlap_mergeChunks)
qed




lemma mergeLoop_nothing_to_join:
  "\<forall>s \<in> set raw. trim s = [] \<Longrightarrow> \<forall>s \<in> set (tl raw). n \<le> length s \<Longrightarrow> mergeLoop raw n = []"
proof (induction raw)
  case Nil
  show ?case by simp
next
  case (Cons s ss)
  have "absorb [] ss n = ([], ss)" using Cons.prems(2) by (cases ss) auto
  moreover have "mergeLoop ss n = []" using Cons by (cases ss) auto
  ultimately show ?case using Cons.prems(1) by simp
qed

lemma mergeChunks_nothing_to_join:
  assumes "\<forall>s \<in> set raw. trim s = []" and "\<forall>s \<in> set (tl raw). n \<le> length s"
  shows "mergeChunks raw n ov = []"
proof (cases "length raw \<le> 1")
  case True
  with assms(1) show ?thesis by (auto simp: mergeChunks_def filter_empty_conv)
next
  case False
  with mergeLoop_nothing_to_join [OF assms] show ?thesis by (simp add: mergeChunks_def)
qed

lemma absorb_grows: "chunk \<noteq> [] \<Longrightarrow> fst (absorb chunk ss n) \<noteq> []"
  by (induction ss arbitrary: chunk) auto

lemma mergeLoop_joins:
  "\<forall>s \<in> set raw. trim s = [] \<Longrightarrow> \<exists>s \<in> set (tl raw). length s < n \<Longrightarrow> mergeLoop raw n \<noteq> []"
proof (induction raw)
  case Nil
  then show ?case by simp
next
  case (Cons s ss)
  from Cons.prems(2) obtain s2 rest where ss: "ss = s2 # rest" by (cases ss) auto
  show ?case
  proof (cases "length s2 < n")
    case True
    then have "absorb [] ss n = absorb ([32] @ trim s2) rest n" using ss by simp
    moreover have "fst (absorb ([32] @ trim s2) rest n) \<noteq> []" by (rule absorb_grows) simp
    ultimately have "fst (absorb (trim s) ss n) \<noteq> []" using Cons.prems(1) by simp
    then show ?thesis by (auto simp: case_prod_beta Let_def)
  next
    case False
    then have "absorb [] ss n = ([], ss)" using ss by simp
    moreover have "\<exists>s \<in> set (tl ss). length s < n" using Cons.prems(2) False ss by auto
    with Cons.IH Cons.prems(1) have "mergeLoop ss n \<noteq> []" by simp
    ultimately show ?thesis using Cons.prems(1) by simp
  qed
qed

lemma mergeChunks_blank_iff:
  assumes "\<forall>s \<in> set raw. trim s = []"
  shows "mergeChunks raw n ov = [] \<longleftrightarrow> (\<forall>s \<in> set (tl raw). n \<le> length s)"
proof
  assume "\<forall>s \<in> set (tl raw). n \<le> length s"
  from mergeChunks_nothing_to_join [OF assms this] show "mergeChunks raw n ov = []" .
next
  assume empty: "mergeChunks raw n ov = []"
  show "\<forall>s \<in> set (tl raw). n \<le> length s"
  proof (rule ccontr)
    assume "\<not> (\<forall>s \<in> set (tl raw). n \<le> length s)"
    then have short: "\<exists>s \<in> set (tl raw). length s < n" by (auto simp: not_le)
    then have "\<not> length raw \<le> 1" by (cases raw) auto
    moreover from mergeLoop_joins [OF assms short] have "mergeLoop raw n \<noteq> []" .
    ultimately have "mergeChunks raw n ov \<noteq> []"
      by (auto simp: mergeChunks_def Let_def)
    with empty show False by simp
  qed
qed

text \<open>
  Full stops are lost in long lines only, and a long line with ". " does lose one.
\<close>

lemma is_ws_10: "is_ws 10"
  by (simp add: is_ws_def)

lemma long_line_stops_elided_mono:
  "k \<le> k' \<Longrightarrow> long_line_stops_elided n k t u \<Longrightarrow> long_line_stops_elided n k' t u"
proof (induction t arbitrary: k k' u)
  case Nil
  then show ?case by simp
next
  case (Cons c cs)
  have le: "Suc k \<le> Suc k'" using Cons.prems(1) by simp
  note IH = Cons.IH [OF le]
  show ?case
  proof (cases "c = 10")
    case True
    with Cons.prems(2) show ?thesis by simp
  next
    case False
    show ?thesis
    proof (cases "is_ws c")
      case True
      with False Cons.prems(2) IH show ?thesis by simp
    next
      case nows: False
      from Cons.prems(2) False nows consider
          (keep) "u \<noteq> []" "hd u = c" "long_line_stops_elided n (Suc k) cs (tl u)"
        | (leave) "c = 46" "cs \<noteq> []" "hd cs = 32"
            "n < Suc k + length (takeWhile (\<lambda>d. d \<noteq> 10) cs)"
            "long_line_stops_elided n (Suc k) cs u"
        by auto
      then show ?thesis
      proof cases
        case keep
        with IH [of "tl u"] False nows show ?thesis by simp
      next
        case leave
        from leave(4) Cons.prems(1)
        have "n < Suc k' + length (takeWhile (\<lambda>d. d \<noteq> 10) cs)" by arith
        with leave IH [of u] False nows show ?thesis by simp
      qed
    qed
  qed
qed

lemma long_line_stops_elided_refl: "long_line_stops_elided n k t (nonspace t)"
  by (induction t arbitrary: k) (auto simp: nonspace_def is_ws_10)

lemma length_takeWhile_append:
  "length (takeWhile P xs) \<le> length (takeWhile P (xs @ ys))"
  by (induction xs) auto

lemma long_line_stops_elided_append:
  "long_line_stops_elided n k a u \<Longrightarrow> long_line_stops_elided n 0 b v \<Longrightarrow>
     long_line_stops_elided n k (a @ b) (u @ v)"
proof (induction a arbitrary: k u)
  case Nil
  then show ?case using long_line_stops_elided_mono [of 0 k n b v] by simp
next
  case (Cons c cs)
  show ?case
  proof (cases "c = 10")
    case True
    with Cons show ?thesis by simp
  next
    case False
    show ?thesis
    proof (cases "is_ws c")
      case True
      with False Cons show ?thesis by simp
    next
      case nows: False
      from Cons.prems(1) False nows consider
          (keep) "u \<noteq> []" "hd u = c" "long_line_stops_elided n (Suc k) cs (tl u)"
        | (leave) "c = 46" "cs \<noteq> []" "hd cs = 32"
            "n < Suc k + length (takeWhile (\<lambda>d. d \<noteq> 10) cs)"
            "long_line_stops_elided n (Suc k) cs u"
        by auto
      then show ?thesis
      proof cases
        case keep
        from Cons.IH [OF keep(3) Cons.prems(2)] keep(1,2) False nows show ?thesis by simp
      next
        case leave
        from leave(4) length_takeWhile_append [of "\<lambda>d. d \<noteq> 10" cs b]
        have "n < Suc k + length (takeWhile (\<lambda>d. d \<noteq> 10) (cs @ b))" by arith
        with Cons.IH [OF leave(5) Cons.prems(2)] leave(1,2,3) False nows show ?thesis by simp
      qed
    qed
  qed
qed

lemma long_line_stops_elidedI:
  "10 \<notin> set p \<Longrightarrow> n < k + length p \<Longrightarrow> stops_elided p u \<Longrightarrow> long_line_stops_elided n k p u"
proof (induction p arbitrary: k u)
  case Nil
  then show ?case by simp
next
  case (Cons c cs)
  have c: "c \<noteq> 10" and cs: "10 \<notin> set cs" using Cons.prems(1) by auto
  have n: "n < Suc k + length cs" using Cons.prems(2) by simp
  have whole: "takeWhile (\<lambda>d. d \<noteq> 10) cs = cs" using cs by (auto simp: takeWhile_eq_all_conv)
  have line: "n < Suc k + length (takeWhile (\<lambda>d. d \<noteq> 10) cs)" by (subst whole) (rule n)
  note IH = Cons.IH [OF cs n]
  show ?case
  proof (cases "is_ws c")
    case True
    with Cons.prems(3) IH c show ?thesis by simp
  next
    case False
    with Cons.prems(3) consider
        (keep) "u \<noteq> []" "hd u = c" "stops_elided cs (tl u)"
      | (leave) "c = 46" "cs \<noteq> []" "hd cs = 32" "stops_elided cs u"
      by auto
    then show ?thesis
    proof cases
      case keep
      with IH [of "tl u"] False c show ?thesis by simp
    next
      case leave
      with IH [of u] False c line show ?thesis by simp
    qed
  qed
qed

lemma long_line_stops_elided_exact:
  "\<not> long_line_stop n k t \<Longrightarrow> long_line_stops_elided n k t u \<Longrightarrow> u = nonspace t"
proof (induction t arbitrary: k u)
  case Nil
  then show ?case by (simp add: nonspace_def)
next
  case (Cons c cs)
  show ?case
  proof (cases "c = 10")
    case True
    with Cons show ?thesis by (simp add: nonspace_def is_ws_10)
  next
    case False
    with Cons.prems(1) have no: "\<not> (c = 46 \<and> cs \<noteq> [] \<and> hd cs = 32
            \<and> n < Suc k + length (takeWhile (\<lambda>d. d \<noteq> 10) cs))"
      "\<not> long_line_stop n (Suc k) cs" by simp_all
    show ?thesis
    proof (cases "is_ws c")
      case True
      with Cons.IH [OF no(2)] Cons.prems(2) False show ?thesis by (simp add: nonspace_def)
    next
      case nows: False
      with Cons.prems(2) no(1) False obtain us where "u = c # us"
        "long_line_stops_elided n (Suc k) cs us"
        by (cases u) auto
      with Cons.IH [OF no(2)] nows show ?thesis by (simp add: nonspace_def)
    qed
  qed
qed

lemma long_line_stop_needs:
  "long_line_stop n k t \<Longrightarrow> stop_before_space t \<and> n < k + length t"
proof (induction t arbitrary: k)
  case Nil
  then show ?case by simp
next
  case (Cons c cs)
  have tw: "length (takeWhile (\<lambda>d. d \<noteq> 10) cs) \<le> length cs" by (rule length_takeWhile_le)
  show ?case
  proof (cases "c = 10")
    case True
    with Cons.prems Cons.IH [of 0] show ?thesis by (auto simp: stop_before_space_Cons)
  next
    case False
    with Cons.prems consider "c = 46" "cs \<noteq> []" "hd cs = 32"
        "n < Suc k + length (takeWhile (\<lambda>d. d \<noteq> 10) cs)"
      | "long_line_stop n (Suc k) cs" by auto
    then show ?thesis
    proof cases
      case 1
      with tw show ?thesis by (auto simp: stop_before_space_Cons)
    next
      case 2
      from Cons.IH [OF this] show ?thesis by (auto simp: stop_before_space_Cons)
    qed
  qed
qed

lemma long_line_stops_elided_weaken:
  "long_line_stops_elided n k t u \<Longrightarrow> stops_elided t u"
  by (induction t arbitrary: k u) (auto simp: is_ws_10 split: if_splits)

lemma split_from_no_break:
  "10 \<notin> set cur \<Longrightarrow> \<forall>p \<in> set (split_from [10] cur xs). 10 \<notin> set p"
proof (induction "[10::nat]" cur xs rule: split_from.induct)
  case (1 cur)
  then show ?case by simp
next
  case (2 cur c cs)
  show ?case
  proof (cases "c = 10")
    case True
    with 2 show ?thesis by simp
  next
    case False
    with 2 show ?thesis by simp
  qed
qed

lemma pack_long_lines:
  assumes sep: "long_line_stops_elided n 0 sep []"
  shows "\<forall>piece \<in> set pieces. n < length piece \<longrightarrow>
            (\<exists>sub. recurse piece = Some sub
               \<and> long_line_stops_elided n 0 piece (nonspace (concat sub))) \<Longrightarrow>
         long_line_stops_elided n 0 tx (nonspace (concat results @ current)) \<Longrightarrow>
         \<exists>out. pack recurse sep n results current pieces = Some out
           \<and> long_line_stops_elided n 0 (tx @ concat (map ((@) sep) pieces))
                (nonspace (concat out))"
proof (induction pieces arbitrary: tx results current)
  case Nil
  then show ?case by auto
next
  case (Cons piece pieces)
  let ?cand = "if current \<noteq> [] then current @ sep @ piece else piece"
  let ?res' = "if current \<noteq> [] then results @ [current] else results"
  have rec': "\<forall>piece \<in> set pieces. n < length piece \<longrightarrow>
            (\<exists>sub. recurse piece = Some sub
               \<and> long_line_stops_elided n 0 piece (nonspace (concat sub)))"
    using Cons.prems(1) by simp
  note IH = Cons.IH [OF rec']
  have step: "long_line_stops_elided n 0 (tx @ sep @ piece)
                (nonspace (concat results @ current) @ v)"
    if "long_line_stops_elided n 0 piece v" for v
    using long_line_stops_elided_append [OF Cons.prems(2)
            long_line_stops_elided_append [OF sep that]] by simp
  show ?case
  proof (cases "length ?cand \<le> n")
    case True
    have "long_line_stops_elided n 0 (tx @ sep @ piece) (nonspace (concat results @ ?cand))"
    proof (cases "current = []")
      case True
      with step [OF long_line_stops_elided_refl [of n 0 piece]] show ?thesis
        by (simp add: nonspace_def)
    next
      case False
      have "long_line_stops_elided n 0 (sep @ piece) (nonspace (sep @ piece))"
        by (rule long_line_stops_elided_refl)
      from long_line_stops_elided_append [OF Cons.prems(2) this] False show ?thesis
        by (simp add: nonspace_def)
    qed
    from IH [OF this]
    obtain out where "pack recurse sep n results ?cand pieces = Some out"
      "long_line_stops_elided n 0 ((tx @ sep @ piece) @ concat (map ((@) sep) pieces))
         (nonspace (concat out))"
      by blast
    then show ?thesis using True by (auto simp: Let_def)
  next
    case False
    show ?thesis
    proof (cases "length piece > n")
      case big: True
      with Cons.prems(1) obtain sub where sub: "recurse piece = Some sub"
        "long_line_stops_elided n 0 piece (nonspace (concat sub))" by auto
      have "long_line_stops_elided n 0 (tx @ sep @ piece) (nonspace (concat (?res' @ sub) @ []))"
        using step [OF sub(2)] by (auto simp: nonspace_def)
      from IH [OF this]
      obtain out where out: "pack recurse sep n (?res' @ sub) [] pieces = Some out"
        "long_line_stops_elided n 0 ((tx @ sep @ piece) @ concat (map ((@) sep) pieces))
           (nonspace (concat out))"
        by blast
      have "pack recurse sep n results current (piece # pieces) = Some out"
        using False big sub(1) out(1) by (simp add: Let_def)
      then show ?thesis using out(2) by simp
    next
      case small: False
      have "long_line_stops_elided n 0 (tx @ sep @ piece) (nonspace (concat ?res' @ piece))"
        using step [OF long_line_stops_elided_refl [of n 0 piece]] by (auto simp: nonspace_def)
      from IH [OF this]
      obtain out where out: "pack recurse sep n ?res' piece pieces = Some out"
        "long_line_stops_elided n 0 ((tx @ sep @ piece) @ concat (map ((@) sep) pieces))
           (nonspace (concat out))"
        by blast
      have "pack recurse sep n results current (piece # pieces) = Some out"
        using False small out(1) by (simp add: Let_def)
      then show ?thesis using out(2) by simp
    qed
  qed
qed

lemma pack_first_long_lines:
  assumes sep: "long_line_stops_elided n 0 sep []"
    and rec: "\<forall>piece \<in> set (p # ps). n < length piece \<longrightarrow>
            (\<exists>sub. recurse piece = Some sub
               \<and> long_line_stops_elided n 0 piece (nonspace (concat sub)))"
  shows "\<exists>out. pack recurse sep n [] [] (p # ps) = Some out
           \<and> long_line_stops_elided n 0 (p @ concat (map ((@) sep) ps)) (nonspace (concat out))"
proof -
  from rec have rec': "\<forall>piece \<in> set ps. n < length piece \<longrightarrow>
            (\<exists>sub. recurse piece = Some sub
               \<and> long_line_stops_elided n 0 piece (nonspace (concat sub)))" by simp
  show ?thesis
  proof (cases "length p \<le> n")
    case True
    have "long_line_stops_elided n 0 p (nonspace (concat [] @ p))"
      using long_line_stops_elided_refl [of n 0 p] by simp
    from pack_long_lines [OF sep rec' this] True show ?thesis by simp
  next
    case False
    with rec obtain sub where sub: "recurse p = Some sub"
      "long_line_stops_elided n 0 p (nonspace (concat sub))" by auto
    then have "long_line_stops_elided n 0 p (nonspace (concat sub @ []))" by simp
    from pack_long_lines [OF sep rec' this] False sub(1) show ?thesis by simp
  qed
qed

lemma splitRecursive_lines:
  assumes "0 < n"
  shows "\<exists>out. splitRecursive p [[10], [46, 32], [32], []] n = Some out
           \<and> long_line_stops_elided n 0 p (nonspace (concat out))"
proof (cases "length p \<le> n")
  case True
  then show ?thesis by (simp add: long_line_stops_elided_refl)
next
  case False
  obtain q qs where pieces: "js_split p [10] = q # qs" "q @ concat (map ((@) [10]) qs) = p"
    using split_from_pieces [of "[10]" "[]" p] by (auto simp: js_split_def)
  have plain: "\<forall>piece \<in> set (q # qs). 10 \<notin> set piece"
    using split_from_no_break [of "[]" p] pieces(1) by (simp add: js_split_def)
  have rec: "\<forall>piece \<in> set (q # qs). n < length piece \<longrightarrow>
            (\<exists>sub. splitRecursive piece [[46, 32], [32], []] n = Some sub
               \<and> long_line_stops_elided n 0 piece (nonspace (concat sub)))"
  proof (intro ballI impI)
    fix piece assume piece: "piece \<in> set (q # qs)" "n < length piece"
    have "\<forall>sep \<in> set [[46, 32], [32], []]. stops_elided sep []" by (simp add: is_ws_def)
    from splitRecursive_elides [OF assms this, of piece]
    obtain sub where sub: "splitRecursive piece [[46, 32], [32], []] n = Some sub"
      "stops_elided piece (nonspace (concat sub))" by blast
    from plain piece(1) have "10 \<notin> set piece" by blast
    from long_line_stops_elidedI [OF this _ sub(2), of n 0] piece(2) sub(1)
    show "\<exists>sub. splitRecursive piece [[46, 32], [32], []] n = Some sub
               \<and> long_line_stops_elided n 0 piece (nonspace (concat sub))" by simp
  qed
  have sep: "long_line_stops_elided n 0 [10] []" by simp
  from pack_first_long_lines [OF sep rec] pieces(2)
  obtain out where "pack (\<lambda>piece. splitRecursive piece [[46, 32], [32], []] n) [10] n [] []
                      (q # qs) = Some out"
    "long_line_stops_elided n 0 p (nonspace (concat out))" by auto
  then show ?thesis using False pieces(1) by auto
qed

lemma splitRecursive_long_lines:
  assumes "0 < n"
  shows "\<exists>out. splitRecursive t SEPARATORS n = Some out
           \<and> long_line_stops_elided n 0 t (nonspace (concat out))"
proof (cases "length t \<le> n")
  case True
  then show ?thesis by (simp add: SEPARATORS_def long_line_stops_elided_refl)
next
  case False
  obtain q qs where pieces: "js_split t [10, 10] = q # qs"
    "q @ concat (map ((@) [10, 10]) qs) = t"
    using split_from_pieces [of "[10, 10]" "[]" t] by (auto simp: js_split_def)
  have rec: "\<forall>piece \<in> set (q # qs). n < length piece \<longrightarrow>
            (\<exists>sub. splitRecursive piece [[10], [46, 32], [32], []] n = Some sub
               \<and> long_line_stops_elided n 0 piece (nonspace (concat sub)))"
    using splitRecursive_lines [OF assms] by blast
  have sep: "long_line_stops_elided n 0 [10, 10] []" by simp
  from pack_first_long_lines [OF sep rec] pieces(2)
  obtain out where "pack (\<lambda>piece. splitRecursive piece [[10], [46, 32], [32], []] n) [10, 10] n
                      [] [] (q # qs) = Some out"
    "long_line_stops_elided n 0 t (nonspace (concat out))" by auto
  then show ?thesis using False pieces(1) by (auto simp: SEPARATORS_def)
qed

lemma splitAndMerge_long_lines:
  assumes "0 < n"
  shows "\<exists>out. splitAndMerge t n ov = Some out
           \<and> long_line_stops_elided n 0 t (nonspace (concat (stripOverlap ov out)))"
proof -
  from splitRecursive_long_lines [OF assms, of t]
  obtain raw where raw: "splitRecursive t SEPARATORS n = Some raw"
    "long_line_stops_elided n 0 t (nonspace (concat raw))" by blast
  have "nonspace (concat (mergeCore raw n)) = nonspace (concat raw)"
    unfolding nonspace_def by (rule mergeCore_filter) simp
  then show ?thesis using raw
    by (simp add: splitAndMerge_def stripOverlap_mergeChunks)
qed

lemma stops_elided_length: "stops_elided t u \<Longrightarrow> length u \<le> length (nonspace t)"
proof (induction t arbitrary: u)
  case Nil
  then show ?case by (simp add: nonspace_def)
next
  case (Cons c cs)
  show ?case
  proof (cases "is_ws c")
    case True
    with Cons show ?thesis by (simp add: nonspace_def)
  next
    case False
    with Cons.prems consider (keep) us where "u = c # us" "stops_elided cs us"
      | (leave) "stops_elided cs u"
      by (cases u) auto
    then show ?thesis
    proof cases
      case keep
      with Cons.IH [of us] False show ?thesis by (simp add: nonspace_def)
    next
      case leave
      with Cons.IH [of u] False show ?thesis by (simp add: nonspace_def)
    qed
  qed
qed

lemma long_line_stop_break:
  "long_line_stop n k (a @ 10 # b) \<longleftrightarrow> long_line_stop n k a \<or> long_line_stop n 0 b"
proof (induction a arbitrary: k)
  case Nil
  show ?case by simp
next
  case (Cons c cs)
  have tw: "takeWhile (\<lambda>d. d \<noteq> 10) (cs @ 10 # b) = takeWhile (\<lambda>d. d \<noteq> (10::nat)) cs"
    by (induction cs) auto
  have hd: "(cs @ 10 # b \<noteq> [] \<and> hd (cs @ 10 # b) = 32) \<longleftrightarrow> (cs \<noteq> [] \<and> hd cs = 32)"
    by (cases cs) auto
  show ?case using Cons [of 0] Cons [of "Suc k"] tw hd by auto
qed

lemma split_from_long_line_stop:
  "sep = [10] \<or> sep = [10, 10] \<Longrightarrow> long_line_stop n 0 (cur @ xs) \<Longrightarrow>
     \<exists>piece \<in> set (split_from sep cur xs). long_line_stop n 0 piece"
proof (induction sep cur xs rule: split_from.induct)
  case (1 sep cur)
  then show ?case by simp
next
  case (2 sep cur c cs)
  show ?case
  proof (cases "prefix sep (c # cs)")
    case True
    then have here: "sep \<noteq> [] \<and> prefix sep (c # cs)" using "2.prems"(1) by auto
    from True "2.prems"(1) obtain rest where rest: "c # cs = sep @ rest"
      by (auto simp: prefix_def)
    then have drop: "drop (length sep) (c # cs) = rest" by simp
    from "2.prems"(1) rest have "long_line_stop n 0 (cur @ c # cs)
        \<longleftrightarrow> long_line_stop n 0 cur \<or> long_line_stop n 0 rest"
      using long_line_stop_break [of n 0 cur "tl sep @ rest"]
      by (auto simp: long_line_stop_break [of n 0 "[]", simplified])
    with "2.prems"(2) consider "long_line_stop n 0 cur" | "long_line_stop n 0 rest" by blast
    then show ?thesis
    proof cases
      case 1
      with here show ?thesis by simp
    next
      case 2
      then have "long_line_stop n 0 ([] @ drop (length sep) (c # cs))" using drop by simp
      from "2.IH"(1) [OF here "2.prems"(1) this] here show ?thesis by simp
    qed
  next
    case False
    then have no: "\<not> (sep \<noteq> [] \<and> prefix sep (c # cs))" by simp
    have "long_line_stop n 0 ((cur @ [c]) @ cs)" using "2.prems"(2) by simp
    from "2.IH"(2) [OF no "2.prems"(1) this] False show ?thesis by simp
  qed
qed

lemma split_from_stop:
  "stop_before_space xs \<Longrightarrow> \<exists>q r rs. split_from [46, 32] cur xs = q # r # rs"
proof (induction "[46::nat, 32]" cur xs rule: split_from.induct)
  case (1 cur)
  then show ?case by simp
next
  case (2 cur c cs)
  show ?case
  proof (cases "prefix [46, 32] (c # cs)")
    case True
    obtain r rs where "split_from [46, 32] [] (drop 2 (c # cs)) = r # rs"
      using split_from_pieces [of "[46, 32]" "[]" "drop 2 (c # cs)"] by auto
    with True show ?thesis by simp
  next
    case False
    then have rest: "stop_before_space cs" using "2.prems" by (cases cs) auto
    from False have no: "\<not> ([46, 32] \<noteq> [] \<and> prefix [46, 32] (c # cs))" by simp
    have eq: "split_from [46, 32] cur (c # cs) = split_from [46, 32] (cur @ [c]) cs"
      using False by auto
    from "2.hyps"(2) [OF no rest] show ?thesis unfolding eq .
  qed
qed

lemma nonspace_append: "nonspace (a @ b) = nonspace a @ nonspace b"
  by (simp add: nonspace_def)

lemma nonspace_Nil: "nonspace [] = []"
  by (simp add: nonspace_def)

lemma nonspace_stop: "nonspace (46 # 32 # cs) = 46 # nonspace cs"
  by (simp add: nonspace_def is_ws_def)

lemma nonspace_concat_pieces:
  "length (nonspace (concat (map ((@) sep) ps)))
     = (\<Sum>p\<leftarrow>ps. length (nonspace p) + length (nonspace sep))"
  by (induction ps) (simp_all add: nonspace_append nonspace_Nil)

lemma pack_loses_where_pieces_lose:
  "\<forall>piece \<in> set pieces. n < length piece \<longrightarrow>
      (\<exists>sub. recurse piece = Some sub
         \<and> length (nonspace (concat sub)) \<le> length (nonspace piece)
         \<and> (L piece \<longrightarrow> length (nonspace (concat sub)) < length (nonspace piece))) \<Longrightarrow>
   pack recurse sep n results current pieces = Some out \<Longrightarrow>
   length (nonspace (concat out))
     \<le> length (nonspace (concat results @ current))
        + (\<Sum>p\<leftarrow>pieces. length (nonspace p) + length (nonspace sep))
   \<and> ((\<exists>piece \<in> set pieces. L piece \<and> n < length piece) \<longrightarrow>
        length (nonspace (concat out))
          < length (nonspace (concat results @ current))
            + (\<Sum>p\<leftarrow>pieces. length (nonspace p) + length (nonspace sep)))"
proof (induction pieces arbitrary: results current)
  case Nil
  then show ?case by (auto simp: nonspace_append nonspace_Nil)
next
  case (Cons piece pieces)
  let ?cand = "if current \<noteq> [] then current @ sep @ piece else piece"
  let ?res' = "if current \<noteq> [] then results @ [current] else results"
  let ?rest = "\<Sum>p\<leftarrow>pieces. length (nonspace p) + length (nonspace sep)"
  have rec': "\<forall>piece \<in> set pieces. n < length piece \<longrightarrow>
      (\<exists>sub. recurse piece = Some sub
         \<and> length (nonspace (concat sub)) \<le> length (nonspace piece)
         \<and> (L piece \<longrightarrow> length (nonspace (concat sub)) < length (nonspace piece)))"
    using Cons.prems(1) by simp
  note IH = Cons.IH [OF rec']
  have res': "nonspace (concat ?res') = nonspace (concat results @ current)" by simp
  show ?case
  proof (cases "length ?cand \<le> n")
    case True
    then have run: "pack recurse sep n results ?cand pieces = Some out"
      using Cons.prems(2) by (simp add: Let_def)
    have small: "\<not> n < length piece" using True by (auto split: if_splits)
    have cand: "length (nonspace (concat results @ ?cand))
                  \<le> length (nonspace (concat results @ current))
                     + (length (nonspace piece) + length (nonspace sep))"
      by (simp add: nonspace_append)
    from IH [OF run] cand small show ?thesis by auto
  next
    case False
    show ?thesis
    proof (cases "length piece > n")
      case big: True
      with Cons.prems(1) obtain sub where sub: "recurse piece = Some sub"
        "length (nonspace (concat sub)) \<le> length (nonspace piece)"
        "L piece \<longrightarrow> length (nonspace (concat sub)) < length (nonspace piece)" by auto
      have run: "pack recurse sep n (?res' @ sub) [] pieces = Some out"
        using Cons.prems(2) False big sub(1) by (simp add: Let_def)
      have eq: "length (nonspace (concat (?res' @ sub) @ []))
                  = length (nonspace (concat results @ current)) + length (nonspace (concat sub))"
        by (auto simp: nonspace_append nonspace_Nil)
      from IH [OF run] have le: "length (nonspace (concat out))
          \<le> length (nonspace (concat results @ current)) + length (nonspace (concat sub)) + ?rest"
        and lt: "(\<exists>piece \<in> set pieces. L piece \<and> n < length piece) \<longrightarrow>
          length (nonspace (concat out))
            < length (nonspace (concat results @ current)) + length (nonspace (concat sub)) + ?rest"
        unfolding eq by blast+
      from le lt sub(2,3) show ?thesis by auto
    next
      case small: False
      have run: "pack recurse sep n ?res' piece pieces = Some out"
        using Cons.prems(2) False small by (simp add: Let_def)
      have eq: "length (nonspace (concat ?res' @ piece))
                  = length (nonspace (concat results @ current)) + length (nonspace piece)"
        by (auto simp: nonspace_append nonspace_Nil)
      from IH [OF run] have le: "length (nonspace (concat out))
          \<le> length (nonspace (concat results @ current)) + length (nonspace piece) + ?rest"
        and lt: "(\<exists>piece \<in> set pieces. L piece \<and> n < length piece) \<longrightarrow>
          length (nonspace (concat out))
            < length (nonspace (concat results @ current)) + length (nonspace piece) + ?rest"
        unfolding eq by blast+
      from le lt small show ?thesis by auto
    qed
  qed
qed

lemma pack_drops_a_stop:
  "\<forall>piece \<in> set pieces. n < length piece \<longrightarrow>
      (\<exists>sub. recurse piece = Some sub
         \<and> length (nonspace (concat sub)) \<le> length (nonspace piece)) \<Longrightarrow>
   pack recurse [46, 32] n results current pieces = Some out \<Longrightarrow>
   length (nonspace (concat out))
     \<le> length (nonspace (concat results @ current))
        + (\<Sum>p\<leftarrow>pieces. length (nonspace p) + 1)
   \<and> (pieces \<noteq> [] \<longrightarrow>
        length (nonspace (concat out))
          = length (nonspace (concat results @ current))
            + (\<Sum>p\<leftarrow>pieces. length (nonspace p) + 1) \<longrightarrow>
        current \<noteq> [] \<and> out = results @ [current @ concat (map ((@) [46, 32]) pieces)])"
proof (induction pieces arbitrary: results current)
  case Nil
  then show ?case by (auto simp: nonspace_append nonspace_Nil)
next
  case (Cons piece pieces)
  let ?cand = "if current \<noteq> [] then current @ [46, 32] @ piece else piece"
  let ?res' = "if current \<noteq> [] then results @ [current] else results"
  let ?rest = "\<Sum>p\<leftarrow>pieces. length (nonspace p) + 1"
  have stop: "nonspace [46, 32] = [46]" by (simp add: nonspace_def is_ws_def)
  have rec': "\<forall>piece \<in> set pieces. n < length piece \<longrightarrow>
      (\<exists>sub. recurse piece = Some sub
         \<and> length (nonspace (concat sub)) \<le> length (nonspace piece))"
    using Cons.prems(1) by simp
  note IH = Cons.IH [OF rec']
  show ?case
  proof (cases "length ?cand \<le> n")
    case True
    then have run: "pack recurse [46, 32] n results ?cand pieces = Some out"
      using Cons.prems(2) by (simp add: Let_def)
    show ?thesis
    proof (cases "current = []")
      case True
      have "length (nonspace (concat results @ ?cand))
              = length (nonspace (concat results @ current)) + length (nonspace piece)"
        using True by (simp add: nonspace_append)
      with IH [OF run] show ?thesis by auto
    next
      case False
      have eq: "length (nonspace (concat results @ ?cand))
              = length (nonspace (concat results @ current)) + (length (nonspace piece) + 1)"
        using False by (simp add: nonspace_append nonspace_stop)
      from IH [OF run] have le: "length (nonspace (concat out))
          \<le> length (nonspace (concat results @ current)) + (length (nonspace piece) + 1) + ?rest"
        and all: "pieces \<noteq> [] \<longrightarrow> length (nonspace (concat out))
          = length (nonspace (concat results @ current)) + (length (nonspace piece) + 1) + ?rest
          \<longrightarrow> out = results @ [?cand @ concat (map ((@) [46, 32]) pieces)]"
        unfolding eq by blast+
      have whole: "out = results @ [current @ concat (map ((@) [46, 32]) (piece # pieces))]"
        if "length (nonspace (concat out))
          = length (nonspace (concat results @ current)) + (length (nonspace piece) + 1) + ?rest"
      proof (cases "pieces = []")
        case True
        with run False show ?thesis by simp
      next
        case nonempty: False
        with all that have "out = results @ [?cand @ concat (map ((@) [46, 32]) pieces)]"
          by blast
        also have "?cand @ concat (map ((@) [46, 32]) pieces)
                     = current @ concat (map ((@) [46, 32]) (piece # pieces))"
          using False by simp
        finally show ?thesis .
      qed
      show ?thesis
      proof (intro conjI impI)
        show "length (nonspace (concat out))
                \<le> length (nonspace (concat results @ current))
                   + (\<Sum>p\<leftarrow>piece # pieces. length (nonspace p) + 1)"
          using le by simp
      next
        assume "length (nonspace (concat out))
                  = length (nonspace (concat results @ current))
                    + (\<Sum>p\<leftarrow>piece # pieces. length (nonspace p) + 1)"
        then have "length (nonspace (concat out))
          = length (nonspace (concat results @ current)) + (length (nonspace piece) + 1) + ?rest"
          by simp
        from whole [OF this] show "out = results @ [current @ concat (map ((@) [46, 32]) (piece # pieces))]" .
      next
        show "current \<noteq> []" by (rule False)
      qed
    qed
  next
    case False
    show ?thesis
    proof (cases "length piece > n")
      case big: True
      with Cons.prems(1) obtain sub where sub: "recurse piece = Some sub"
        "length (nonspace (concat sub)) \<le> length (nonspace piece)" by auto
      have run: "pack recurse [46, 32] n (?res' @ sub) [] pieces = Some out"
        using Cons.prems(2) False big sub(1) by (simp add: Let_def)
      have eq: "length (nonspace (concat (?res' @ sub) @ []))
                  = length (nonspace (concat results @ current)) + length (nonspace (concat sub))"
        by (auto simp: nonspace_append nonspace_Nil)
      from IH [OF run] have "length (nonspace (concat out))
          \<le> length (nonspace (concat results @ current)) + length (nonspace (concat sub)) + ?rest"
        unfolding eq by blast
      with sub(2) show ?thesis by auto
    next
      case small: False
      have run: "pack recurse [46, 32] n ?res' piece pieces = Some out"
        using Cons.prems(2) False small by (simp add: Let_def)
      have eq: "length (nonspace (concat ?res' @ piece))
                  = length (nonspace (concat results @ current)) + length (nonspace piece)"
        by (auto simp: nonspace_append nonspace_Nil)
      from IH [OF run] have "length (nonspace (concat out))
          \<le> length (nonspace (concat results @ current)) + length (nonspace piece) + ?rest"
        unfolding eq by blast
      then show ?thesis by auto
    qed
  qed
qed

lemma splitRecursive_cut_line_loses:
  assumes "0 < n" and "n < length p" and "stop_before_space p"
  shows "\<exists>sub. splitRecursive p [[46, 32], [32], []] n = Some sub
           \<and> length (nonspace (concat sub)) < length (nonspace p)"
proof -
  let ?rec = "\<lambda>piece. splitRecursive piece [[32], []] n"
  from splitRecursive_ok [OF assms(1), of "[[46, 32], [32], []]" "\<lambda>c. \<not> is_ws c \<and> c \<noteq> 46" p]
  obtain sub where sub: "splitRecursive p [[46, 32], [32], []] n = Some sub"
    "\<forall>s \<in> set sub. length s \<le> n" by (auto simp: is_ws_def)
  from split_from_stop [OF assms(3), of "[]"] obtain q r rs
    where pieces: "js_split p [46, 32] = q # r # rs" by (auto simp: js_split_def)
  from split_from_pieces [of "[46, 32]" "[]" p] pieces
  have whole: "q @ concat (map ((@) [46, 32]) (r # rs)) = p" by (auto simp: js_split_def)
  have count: "length (nonspace p)
      = length (nonspace q) + (\<Sum>x\<leftarrow>r # rs. length (nonspace x) + 1)"
    unfolding whole [symmetric] nonspace_append length_append nonspace_concat_pieces
    by (simp add: nonspace_def is_ws_def)
  have rec: "\<exists>s. ?rec piece = Some s \<and> length (nonspace (concat s)) \<le> length (nonspace piece)"
    for piece
    using splitRecursive_ok [OF assms(1), of "[[32], []]" "\<lambda>c. \<not> is_ws c" piece]
    by (auto simp: is_ws_def nonspace_def)
  then have recs: "\<forall>piece \<in> set (r # rs). n < length piece \<longrightarrow>
      (\<exists>s. ?rec piece = Some s \<and> length (nonspace (concat s)) \<le> length (nonspace piece))"
    by blast
  have run: "pack ?rec [46, 32] n [] [] (q # r # rs) = Some sub"
    using sub(1) assms(2) pieces by simp
  show ?thesis
  proof (cases "length q \<le> n")
    case True
    with run have "pack ?rec [46, 32] n [] q (r # rs) = Some sub" by (simp add: Let_def)
    from pack_drops_a_stop [OF recs this]
    have le: "length (nonspace (concat sub)) \<le> length (nonspace p)"
      and all: "length (nonspace (concat sub)) = length (nonspace p) \<longrightarrow>
                  sub = [q @ concat (map ((@) [46, 32]) (r # rs))]"
      unfolding count by (simp_all add: nonspace_Nil)
    have "length (nonspace (concat sub)) \<noteq> length (nonspace p)"
    proof
      assume "length (nonspace (concat sub)) = length (nonspace p)"
      with all whole have "sub = [p]" by simp
      with sub(2) assms(2) show False by simp
    qed
    with le sub(1) show ?thesis by (intro exI [of _ sub]) simp
  next
    case False
    from rec [of q] obtain s0 where s0: "?rec q = Some s0"
      "length (nonspace (concat s0)) \<le> length (nonspace q)" by blast
    from run False s0(1) have "pack ?rec [46, 32] n s0 [] (r # rs) = Some sub"
      by (simp add: Let_def)
    from pack_drops_a_stop [OF recs this]
    have le: "length (nonspace (concat sub))
                \<le> length (nonspace (concat s0)) + (\<Sum>x\<leftarrow>r # rs. length (nonspace x) + 1)"
      and ne: "length (nonspace (concat sub))
                \<noteq> length (nonspace (concat s0)) + (\<Sum>x\<leftarrow>r # rs. length (nonspace x) + 1)"
      by auto
    with s0(2) count sub(1) show ?thesis by (intro exI [of _ sub]) simp
  qed
qed

lemma nonspace_break: "nonspace [10] = []" "nonspace [10, 10] = []"
  by (simp_all add: nonspace_def is_ws_def)

lemma pack_cut_lines_lose:
  assumes sep: "sep = [10] \<or> sep = [10, 10]"
    and rec: "\<And>piece. \<exists>sub. recurse piece = Some sub
         \<and> length (nonspace (concat sub)) \<le> length (nonspace piece)
         \<and> (long_line_stop n 0 piece \<longrightarrow> length (nonspace (concat sub)) < length (nonspace piece))"
    and run: "pack recurse sep n [] [] (js_split t sep) = Some out"
    and stop: "long_line_stop n 0 t"
  shows "length (nonspace (concat out)) < length (nonspace t)"
proof -
  from sep have ne: "sep \<noteq> []" by auto
  from split_from_pieces [OF ne, of "[]" t] obtain q qs
    where pieces: "js_split t sep = q # qs" "q @ concat (map ((@) sep) qs) = t"
    using ne by (auto simp: js_split_def)
  have blank: "length (nonspace sep) = 0" using sep nonspace_break by auto
  have count: "length (nonspace t) = (\<Sum>x\<leftarrow>q # qs. length (nonspace x) + length (nonspace sep))"
    unfolding pieces(2) [symmetric] nonspace_append length_append nonspace_concat_pieces
    by (simp add: blank)
  from split_from_long_line_stop [OF sep, of n "[]" t] stop pieces(1) ne
  obtain piece where piece: "piece \<in> set (q # qs)" "long_line_stop n 0 piece"
    by (auto simp: js_split_def)
  from long_line_stop_needs [OF piece(2)] have "n < length piece" by simp
  with piece have lossy: "\<exists>piece \<in> set (q # qs). long_line_stop n 0 piece \<and> n < length piece"
    by blast
  have recs: "\<forall>piece \<in> set (q # qs). n < length piece \<longrightarrow>
      (\<exists>sub. recurse piece = Some sub
         \<and> length (nonspace (concat sub)) \<le> length (nonspace piece)
         \<and> (long_line_stop n 0 piece
              \<longrightarrow> length (nonspace (concat sub)) < length (nonspace piece)))"
    using rec by blast
  from run pieces(1) have "pack recurse sep n [] [] (q # qs) = Some out" by simp
  from pack_loses_where_pieces_lose [OF recs this] lossy
  show ?thesis unfolding count by (auto simp: nonspace_Nil)
qed

lemma splitRecursive_lines_lose:
  assumes "0 < n"
  shows "\<exists>out. splitRecursive p [[10], [46, 32], [32], []] n = Some out
           \<and> length (nonspace (concat out)) \<le> length (nonspace p)
           \<and> (long_line_stop n 0 p \<longrightarrow> length (nonspace (concat out)) < length (nonspace p))"
proof -
  let ?rec = "\<lambda>piece. splitRecursive piece [[46, 32], [32], []] n"
  from splitRecursive_lines [OF assms, of p]
  obtain out where out: "splitRecursive p [[10], [46, 32], [32], []] n = Some out"
    "long_line_stops_elided n 0 p (nonspace (concat out))" by blast
  from stops_elided_length [OF long_line_stops_elided_weaken [OF out(2)]]
  have le: "length (nonspace (concat out)) \<le> length (nonspace p)" .
  have "length (nonspace (concat out)) < length (nonspace p)" if stop: "long_line_stop n 0 p"
  proof -
    from long_line_stop_needs [OF stop] have long: "n < length p" by simp
    have rec: "\<exists>sub. ?rec piece = Some sub
         \<and> length (nonspace (concat sub)) \<le> length (nonspace piece)
         \<and> (long_line_stop n 0 piece \<longrightarrow> length (nonspace (concat sub)) < length (nonspace piece))"
      for piece
    proof (cases "long_line_stop n 0 piece")
      case True
      from long_line_stop_needs [OF True]
      have "stop_before_space piece" "n < length piece" by simp_all
      from splitRecursive_cut_line_loses [OF assms this(2) this(1)] show ?thesis by auto
    next
      case False
      have "\<forall>sep \<in> set [[46, 32], [32], []]. stops_elided sep []" by (simp add: is_ws_def)
      from splitRecursive_elides [OF assms this, of piece]
      obtain sub where "?rec piece = Some sub" "stops_elided piece (nonspace (concat sub))"
        by blast
      with stops_elided_length [OF this(2)] False show ?thesis by simp
    qed
    have run: "pack ?rec [10] n [] [] (js_split p [10]) = Some out"
      using out(1) long by simp
    from pack_cut_lines_lose [of "[10]" ?rec n p out, OF _ rec run stop] show ?thesis by simp
  qed
  with out(1) le show ?thesis by blast
qed

lemma splitRecursive_loses:
  assumes "0 < n" and stop: "long_line_stop n 0 t"
  shows "\<exists>out. splitRecursive t SEPARATORS n = Some out
           \<and> length (nonspace (concat out)) < length (nonspace t)"
proof -
  let ?rec = "\<lambda>piece. splitRecursive piece [[10], [46, 32], [32], []] n"
  from splitRecursive_long_lines [OF assms(1), of t]
  obtain out where out: "splitRecursive t SEPARATORS n = Some out" by blast
  from long_line_stop_needs [OF stop] have long: "n < length t" by simp
  have run: "pack ?rec [10, 10] n [] [] (js_split t [10, 10]) = Some out"
    using out long by (simp add: SEPARATORS_def)
  from pack_cut_lines_lose [of "[10, 10]" ?rec n t out, OF _ splitRecursive_lines_lose [OF assms(1)]
      run stop]
  have "length (nonspace (concat out)) < length (nonspace t)" by simp
  with out show ?thesis by blast
qed

lemma splitAndMerge_exact_iff:
  assumes "0 < n"
  shows "\<exists>out. splitAndMerge t n ov = Some out
           \<and> long_line_stops_elided n 0 t (nonspace (concat (stripOverlap ov out)))
           \<and> (nonspace (concat (stripOverlap ov out)) = nonspace t
                \<longleftrightarrow> \<not> long_line_stop n 0 t)"
proof -
  from splitAndMerge_long_lines [OF assms, of t ov]
  obtain out where out: "splitAndMerge t n ov = Some out"
    "long_line_stops_elided n 0 t (nonspace (concat (stripOverlap ov out)))" by blast
  have "nonspace (concat (stripOverlap ov out)) \<noteq> nonspace t" if stop: "long_line_stop n 0 t"
  proof -
    from splitRecursive_loses [OF assms stop]
    obtain raw where raw: "splitRecursive t SEPARATORS n = Some raw"
      "length (nonspace (concat raw)) < length (nonspace t)" by blast
    have core: "nonspace (concat (mergeCore raw n)) = nonspace (concat raw)"
      unfolding nonspace_def by (rule mergeCore_filter) simp
    from raw(1) out(1) have "out = mergeChunks raw n ov" by (simp add: splitAndMerge_def)
    then have "stripOverlap ov out = mergeCore raw n" by (simp add: stripOverlap_mergeChunks)
    with core raw(2)
    have "length (nonspace (concat (stripOverlap ov out))) < length (nonspace t)" by simp
    then show ?thesis by auto
  qed
  moreover have "nonspace (concat (stripOverlap ov out)) = nonspace t"
    if "\<not> long_line_stop n 0 t"
    using long_line_stops_elided_exact [OF that out(2)] .
  ultimately show ?thesis using out by blast
qed

lemma decimal_nonempty: "decimal n \<noteq> []"
  by (subst decimal.simps) simp

lemma decimal_inj: "decimal n = decimal m \<Longrightarrow> n = m"
proof (induction n arbitrary: m rule: decimal.induct)
  case (1 n)
  show ?case
  proof (cases "n < 10")
    case True
    show ?thesis
    proof (cases "m < 10")
      case True
      with \<open>n < 10\<close> "1.prems" show ?thesis
        by (simp add: decimal.simps [of n] decimal.simps [of m])
    next
      case False
      have "decimal m = decimal (m div 10) @ [48 + m mod 10]"
        using False by (subst decimal.simps) simp
      moreover have "decimal n = [48 + n]" using True by (subst decimal.simps) simp
      ultimately show ?thesis using "1.prems" decimal_nonempty [of "m div 10"] by simp
    qed
  next
    case False
    have n: "decimal n = decimal (n div 10) @ [48 + n mod 10]"
      using False by (subst decimal.simps) simp
    show ?thesis
    proof (cases "m < 10")
      case True
      then have "decimal m = [48 + m]" by (subst decimal.simps) simp
      then show ?thesis using n "1.prems" decimal_nonempty [of "n div 10"] by simp
    next
      case m: False
      have "decimal m = decimal (m div 10) @ [48 + m mod 10]"
        using m by (subst decimal.simps) simp
      with n "1.prems" have "decimal (n div 10) = decimal (m div 10)" "n mod 10 = m mod 10"
        by simp_all
      with "1.IH" [OF False, of "m div 10"] have "n div 10 = m div 10" by simp
      with \<open>n mod 10 = m mod 10\<close> show ?thesis
        by (metis div_mult_mod_eq)
    qed
  qed
qed

lemma split_from_absent:
  "sep \<noteq> [] \<Longrightarrow> hd sep \<notin> set xs \<Longrightarrow> split_from sep cur xs = [cur @ xs]"
proof (induction xs arbitrary: cur)
  case Nil
  show ?case by simp
next
  case (Cons c cs)
  then have "\<not> prefix sep (c # cs)" by (cases sep) auto
  then show ?case using Cons by simp
qed

lemma split_from_first:
  "sep \<noteq> [] \<Longrightarrow> hd sep \<notin> set xs \<Longrightarrow>
     split_from sep cur (xs @ sep @ ys) = (cur @ xs) # split_from sep [] ys"
proof (induction xs arbitrary: cur)
  case Nil
  then obtain s ss where "sep = s # ss" by (cases sep) auto
  then show ?case by simp
next
  case (Cons c cs)
  then have "\<not> prefix sep (c # cs @ sep @ ys)" by (cases sep) auto
  then show ?case using Cons by simp
qed

lemma sliceLoop_step:
  "i < length t \<Longrightarrow>
     sliceLoop t n i parts = sliceLoop t n (i + n) (parts @ [take n (drop i t)])"
  by (subst sliceLoop.simps) simp

lemma sliceLoop_done: "\<not> i < length t \<Longrightarrow> sliceLoop t n i parts = Some parts"
  by (subst sliceLoop.simps) simp

lemma trim_replicate:
  "trim (replicate n c) = (if is_ws c then [] else replicate n c)"
  by (simp add: trim_def)

text \<open>
  Three documents at the sizes the upload route uses (parents of 2000 with overlap 200):
  two runs of letters around one ". ", 4000 letters with no separator, and two runs of
  spaces around a blank line.
\<close>

lemma two_sentences_at_default_sizes:
  "splitAndMerge (replicate 1500 97 @ [46, 32] @ replicate 1500 98) 2000 200
     = Some [replicate 1500 97, replicate 200 97 @ [32] @ replicate 1500 98]"
proof -
  let ?A = "replicate 1500 (97::nat)" and ?B = "replicate 1500 (98::nat)"
  let ?t = "?A @ 46 # 32 # ?B"
  have s1: "js_split ?t [10, 10] = [?t]"
    using split_from_absent [of "[10, 10]" ?t "[]"] by (simp add: js_split_def)
  have s2: "js_split ?t [10] = [?t]"
    using split_from_absent [of "[10]" ?t "[]"] by (simp add: js_split_def)
  have s3: "js_split ?t [46, 32] = [?A, ?B]"
    using split_from_first [of "[46, 32]" ?A "[]" ?B] split_from_absent [of "[46, 32]" ?B "[]"]
    by (simp add: js_split_def)
  have "splitRecursive ?t SEPARATORS 2000 = Some [?A, ?B]"
    by (simp add: SEPARATORS_def s1 s2 s3 Let_def)
  moreover have "mergeChunks [?A, ?B] 2000 200 = [?A, replicate 200 97 @ [32] @ ?B]"
    by (simp add: mergeChunks_def trim_replicate is_ws_def slice_last_def Let_def)
  ultimately show ?thesis by (simp add: splitAndMerge_def)
qed

lemma unbroken_text_at_default_sizes:
  "splitAndMerge (replicate 4000 97) 2000 200
     = Some [replicate 2000 97, replicate 200 97 @ [32] @ replicate 2000 97]"
proof -
  let ?t = "replicate 4000 (97::nat)"
  have s1: "js_split ?t [10, 10] = [?t]"
    using split_from_absent [of "[10, 10]" ?t "[]"] by (simp add: js_split_def)
  have s2: "js_split ?t [10] = [?t]"
    using split_from_absent [of "[10]" ?t "[]"] by (simp add: js_split_def)
  have s3: "js_split ?t [46, 32] = [?t]"
    using split_from_absent [of "[46, 32]" ?t "[]"] by (simp add: js_split_def)
  have s4: "js_split ?t [32] = [?t]"
    using split_from_absent [of "[32]" ?t "[]"] by (simp add: js_split_def)
  have "sliceLoop ?t 2000 0 [] = Some [replicate 2000 97, replicate 2000 97]"
    by (simp add: sliceLoop_step sliceLoop_done)
  then have "splitRecursive ?t SEPARATORS 2000 = Some [replicate 2000 97, replicate 2000 97]"
    by (simp add: SEPARATORS_def s1 s2 s3 s4 Let_def)
  moreover have "mergeChunks [replicate 2000 97, replicate 2000 97] 2000 200
        = [replicate 2000 97, replicate 200 97 @ [32] @ replicate 2000 97]"
    by (simp add: mergeChunks_def trim_replicate is_ws_def slice_last_def Let_def)
  ultimately show ?thesis by (simp add: splitAndMerge_def)
qed


lemma length_concat_replicate: "length (concat (replicate k xs)) = k * length xs"
  by (induction k) auto

lemma concat_replicate_snoc: "concat (replicate k xs) @ xs = concat (replicate (Suc k) xs)"
  by (induction k) auto

lemma split_from_repeat:
  "sep \<noteq> [] \<Longrightarrow> split_from sep [] (concat (replicate k sep)) = replicate (Suc k) []"
proof (induction k)
  case 0
  show ?case by simp
next
  case (Suc k)
  from split_from_first [OF Suc.prems, of "[]" "[]" "concat (replicate k sep)"] Suc
  show ?case by simp
qed

lemma pack_empties:
  "pack recurse sep n results [] (replicate k []) = Some results"
  by (induction k) (simp_all add: Let_def)

lemma trim_id: "s \<noteq> [] \<Longrightarrow> \<not> is_ws (hd s) \<Longrightarrow> \<not> is_ws (last s) \<Longrightarrow> trim s = s"
proof -
  assume s: "s \<noteq> []" "\<not> is_ws (hd s)" "\<not> is_ws (last s)"
  then have "dropWhile is_ws s = s" by (cases s) auto
  moreover have "dropWhile is_ws (rev s) = rev s"
    using s by (cases "rev s") (auto simp: hd_rev)
  ultimately show ?thesis by (simp add: trim_def)
qed

text \<open>
  A fourth document at the sizes of the upload route, and its one parent at the child
  sizes: 249 times ". ", a full stop, a blank line and 1500 spaces.
\<close>

lemma stops_then_blanks_at_default_sizes:
  "splitAndMerge (concat (replicate 249 [46, 32]) @ [46] @ [10, 10] @ replicate 1500 32) 2000 200
     = Some [concat (replicate 250 [46, 32])]"
proof -
  let ?D = "concat (replicate 249 [46, 32 :: nat])"
  let ?S = "replicate 1500 (32::nat)"
  let ?t = "?D @ 46 # 10 # 10 # ?S"
  have len: "length ?D = 498" by (simp add: length_concat_replicate)
  have s1: "js_split ?t [10, 10] = [?D @ [46], ?S]"
    using split_from_first [of "[10, 10]" "?D @ [46]" "[]" ?S]
      split_from_absent [of "[10, 10]" ?S "[]"]
    by (simp add: js_split_def)
  have raw: "splitRecursive ?t SEPARATORS 2000 = Some [?D @ [46], ?S]"
    by (simp add: SEPARATORS_def s1 Let_def len)
  have "?D \<noteq> []" using len by auto
  moreover have "hd ?D = 46" by (simp add: numeral_eq_Suc)
  ultimately have "trim (?D @ [46]) = ?D @ [46]"
    by (intro trim_id) (simp_all add: is_ws_def)
  then have "mergeChunks [?D @ [46], ?S] 2000 200 = [(?D @ [46]) @ [32]]"
    by (simp add: mergeChunks_def trim_replicate is_ws_def Let_def len)
  also have "(?D @ [46]) @ [32] = concat (replicate 250 [46, 32])"
    using concat_replicate_snoc [of 249 "[46, 32 :: nat]"] by simp
  finally show ?thesis using raw by (simp add: splitAndMerge_def)
qed

lemma stops_and_spaces_give_no_child:
  "splitAndMerge (concat (replicate 250 [46, 32])) 400 50 = Some []"
proof -
  let ?P = "concat (replicate 250 [46, 32 :: nat])"
  have len: "length ?P = 500" by (simp add: length_concat_replicate)
  have s1: "js_split ?P [10, 10] = [?P]"
    using split_from_absent [of "[10, 10]" ?P "[]"] by (simp add: js_split_def)
  have s2: "js_split ?P [10] = [?P]"
    using split_from_absent [of "[10]" ?P "[]"] by (simp add: js_split_def)
  have s3: "js_split ?P [46, 32] = replicate 251 []"
    using split_from_repeat [of "[46, 32]" 250] by (simp add: js_split_def)
  have "splitRecursive ?P SEPARATORS 400 = Some []"
    by (simp add: SEPARATORS_def s1 s2 s3 Let_def len pack_empties)
  then show ?thesis by (simp add: splitAndMerge_def mergeChunks_def)
qed

lemma length_mkParents: "length (mkParents ts) = length ts"
  by (simp add: mkParents_def)

lemma nth_mkParents:
  "i < length ts \<Longrightarrow>
     mkParents ts ! i = \<lparr>id_p = js ''p-'' @ decimal i, text_p = ts ! i, index_p = i\<rparr>"
  by (simp add: mkParents_def nth_enumerate_eq)

lemma text_mkParents: "map text_p (mkParents ts) = ts"
  by (rule nth_equalityI) (simp_all add: length_mkParents nth_mkParents)

lemma id_mkParents_inj:
  assumes "i < length ts" "j < length ts" "id_p (mkParents ts ! i) = id_p (mkParents ts ! j)"
  shows "i = j"
  using assms decimal_inj [of i j] by (simp add: nth_mkParents)

lemma pushChildren_cases:
  "c \<in> set (pushChildren p cts acc) \<Longrightarrow>
     c \<in> set acc \<or> (parentId c = id_p p \<and> text_c c \<in> set cts)"
  by (auto simp: pushChildren_def in_set_enumerate_eq)

lemma pushChildren_mono: "set acc \<subseteq> set (pushChildren p cts acc)"
  by (simp add: pushChildren_def)

lemma pushChildren_some:
  assumes "cts \<noteq> []"
  shows "\<exists>c \<in> set (pushChildren p cts acc). parentId c = id_p p"
proof -
  from assms obtain x xs where "cts = x # xs" by (cases cts) auto
  then show ?thesis by (simp add: pushChildren_def enumerate_simps)
qed

lemma splitAndMerge_nonempty:
  assumes "0 < n" and "substance t \<noteq> []"
  shows "\<exists>out. splitAndMerge t n ov = Some out \<and> out \<noteq> []"
proof -
  from splitAndMerge_ok [OF assms(1), of "\<lambda>c. \<not> is_ws c \<and> c \<noteq> 46" t ov]
  obtain out where out: "splitAndMerge t n ov = Some out"
    "substance (concat (stripOverlap ov out)) = substance t"
    by (auto simp: substance_def)
  have "out \<noteq> []"
  proof
    assume "out = []"
    then have "substance (concat (stripOverlap ov out)) = []"
      by (simp add: stripOverlap_def substance_def)
    with out(2) assms(2) show False by simp
  qed
  with out(1) show ?thesis by blast
qed

lemma childLoop_ok:
  assumes "0 < cs"
  shows "\<exists>children. childLoop ps cs co acc = Some children \<and> set acc \<subseteq> set children
           \<and> (\<forall>c \<in> set children. c \<in> set acc
                 \<or> (\<exists>p \<in> set ps. parentId c = id_p p) \<and> length (text_c c) \<le> cs + co + 1)
           \<and> (\<forall>p \<in> set ps. substance (text_p p) \<noteq> []
                 \<longrightarrow> (\<exists>c \<in> set children. parentId c = id_p p))"
proof (induction ps arbitrary: acc)
  case Nil
  show ?case by simp
next
  case (Cons p ps)
  from splitAndMerge_ok [OF assms, of "\<lambda>c. \<not> is_ws c \<and> c \<noteq> 46" "text_p p" co]
  obtain cts where cts: "splitAndMerge (text_p p) cs co = Some cts"
    "\<forall>c \<in> set cts. length c \<le> cs + co + 1" by auto
  let ?acc = "pushChildren p cts acc"
  from Cons [of ?acc] obtain children where ch: "childLoop ps cs co ?acc = Some children"
    "set ?acc \<subseteq> set children"
    "\<forall>c \<in> set children. c \<in> set ?acc
        \<or> (\<exists>p \<in> set ps. parentId c = id_p p) \<and> length (text_c c) \<le> cs + co + 1"
    "\<forall>p \<in> set ps. substance (text_p p) \<noteq> [] \<longrightarrow> (\<exists>c \<in> set children. parentId c = id_p p)"
    by blast
  have 1: "childLoop (p # ps) cs co acc = Some children" using cts(1) ch(1) by simp
  have 2: "set acc \<subseteq> set children" using pushChildren_mono [of acc p cts] ch(2) by blast
  have 3: "c \<in> set acc
        \<or> (\<exists>q \<in> set (p # ps). parentId c = id_p q) \<and> length (text_c c) \<le> cs + co + 1"
    if "c \<in> set children" for c
  proof -
    from ch(3) that consider "c \<in> set ?acc"
      | "(\<exists>p \<in> set ps. parentId c = id_p p) \<and> length (text_c c) \<le> cs + co + 1" by blast
    then show ?thesis
    proof cases
      case 1
      from pushChildren_cases [OF this] cts(2) show ?thesis by auto
    next
      case 2
      then show ?thesis by auto
    qed
  qed
  have 4: "\<exists>c \<in> set children. parentId c = id_p q"
    if "q \<in> set (p # ps)" "substance (text_p q) \<noteq> []" for q
  proof (cases "q = p")
    case True
    from splitAndMerge_nonempty [OF assms, of "text_p p" co] that(2) True cts(1)
    have "cts \<noteq> []" by auto
    from pushChildren_some [OF this, of p acc] ch(2) True show ?thesis by blast
  next
    case False
    with that ch(4) show ?thesis by auto
  qed
  from 1 2 3 4 show ?case by blast
qed

lemma splitAndMerge_keeps_last:
  assumes "0 < n" and "t \<noteq> []" and "\<not> is_ws (last t)"
  shows "\<exists>out. splitAndMerge t n ov = Some out \<and> out \<noteq> []"
proof -
  from splitAndMerge_elides [OF assms(1), of t ov]
  obtain out where out: "splitAndMerge t n ov = Some out"
    "stops_elided t (nonspace (concat (stripOverlap ov out)))" by blast
  from stops_elided_last [OF out(2) assms(2) assms(3)]
  have "out \<noteq> []" by (auto simp: stripOverlap_def nonspace_def)
  with out(1) show ?thesis by blast
qed

lemma childLoop_keeps_last:
  assumes "0 < cs"
  shows "childLoop ps cs co acc = Some children \<Longrightarrow>
         \<forall>p \<in> set ps. text_p p \<noteq> [] \<and> \<not> is_ws (last (text_p p))
            \<longrightarrow> (\<exists>c \<in> set children. parentId c = id_p p)"
proof (induction ps arbitrary: acc)
  case Nil
  show ?case by simp
next
  case (Cons p ps)
  from Cons.prems obtain cts where cts: "splitAndMerge (text_p p) cs co = Some cts"
    "childLoop ps cs co (pushChildren p cts acc) = Some children"
    by (auto split: option.splits)
  from childLoop_ok [OF assms, of ps co "pushChildren p cts acc"] cts(2)
  have mono: "set (pushChildren p cts acc) \<subseteq> set children" by auto
  have "\<exists>c \<in> set children. parentId c = id_p p"
    if "text_p p \<noteq> []" "\<not> is_ws (last (text_p p))"
  proof -
    from splitAndMerge_keeps_last [OF assms that, of co] cts(1) have "cts \<noteq> []" by auto
    from pushChildren_some [OF this, of p acc] mono show ?thesis by blast
  qed
  with Cons.IH [OF cts(2)] show ?case by auto
qed

lemma children_resolve_and_parents_have_children:
  assumes "0 < parentSize" and "0 < childSize"
  shows "\<exists>parents children.
        parentChildChunk t parentSize parentOverlap childSize childOverlap
          = Some (parents, children)
        \<and> (\<forall>c \<in> set children. \<exists>!i. i < length parents \<and> id_p (parents ! i) = parentId c)
        \<and> (\<forall>p \<in> set parents. text_p p \<noteq> [] \<and> \<not> is_ws (last (text_p p))
              \<longrightarrow> (\<exists>c \<in> set children. parentId c = id_p p))"
proof -
  from splitAndMerge_elides [OF assms(1), of t parentOverlap]
  obtain pts where pts: "splitAndMerge t parentSize parentOverlap = Some pts"
    by auto
  let ?parents = "mkParents pts"
  from childLoop_ok [OF assms(2), of ?parents childOverlap "[]"]
  obtain children where ch: "childLoop ?parents childSize childOverlap [] = Some children"
    "\<forall>c \<in> set children. \<exists>p \<in> set ?parents. parentId c = id_p p"
    by auto
  note has = childLoop_keeps_last [OF assms(2) ch(1)]
  have "\<exists>!i. i < length ?parents \<and> id_p (?parents ! i) = parentId c"
    if "c \<in> set children" for c
  proof -
    from ch(2) that obtain p where "p \<in> set ?parents" "parentId c = id_p p" by blast
    then obtain i where i: "i < length ?parents" "id_p (?parents ! i) = parentId c"
      by (auto simp: in_set_conv_nth)
    show ?thesis
    proof (rule ex1I [of _ i])
      show "i < length ?parents \<and> id_p (?parents ! i) = parentId c" using i by simp
    next
      fix j assume "j < length ?parents \<and> id_p (?parents ! j) = parentId c"
      with i id_mkParents_inj [of j pts i] show "j = i"
        by (simp add: length_mkParents)
    qed
  qed
  with pts ch(1) has show ?thesis by (simp add: parentChildChunk_def)
qed

lemma no_stop_no_stop_before_space: "46 \<notin> set t \<Longrightarrow> \<not> stop_before_space t"
  by (induction t rule: stop_before_space.induct) auto

section \<open>The claims about the chunker\<close>

text \<open>
  Claim C3, chunk coverage. As stated (the parent chunks without their injected overlap
  reproduce the text up to whitespace only) it fails, in one way only: a line longer than
  the parent size is cut at its ". " separators, and where it is cut the separator is
  dropped, its full stop included. For every text and positive sizes the chunker
  returns, and the non-whitespace characters of the parent chunks without their overlap
  prefixes are those of the text, in order and each once, except for full stops that
  stand directly before a space in a line longer than the parent size. Nothing is lost
  exactly when the text has no such full stop; in particular the claim holds as stated
  for a text without ". " and for a text no longer than the parent size.
\<close>

theorem chunk_coverage_up_to_cut_stops:
  "0 < parentSize \<Longrightarrow> 0 < childSize \<Longrightarrow>
     \<exists>parents children.
        parentChildChunk t parentSize parentOverlap childSize childOverlap
          = Some (parents, children)
        \<and> long_line_stops_elided parentSize 0 t
            (nonspace (concat (stripOverlap parentOverlap (map text_p parents))))
        \<and> (nonspace (concat (stripOverlap parentOverlap (map text_p parents))) = nonspace t
             \<longleftrightarrow> \<not> long_line_stop parentSize 0 t)
        \<and> (\<not> stop_before_space t \<or> length t \<le> parentSize
             \<longrightarrow> nonspace (concat (stripOverlap parentOverlap (map text_p parents)))
                   = nonspace t)"
proof -
  assume ps: "0 < parentSize" and cs: "0 < childSize"
  from splitAndMerge_exact_iff [OF ps, of t parentOverlap]
  obtain pts where pts: "splitAndMerge t parentSize parentOverlap = Some pts"
    "long_line_stops_elided parentSize 0 t (nonspace (concat (stripOverlap parentOverlap pts)))"
    "nonspace (concat (stripOverlap parentOverlap pts)) = nonspace t
       \<longleftrightarrow> \<not> long_line_stop parentSize 0 t"
    by blast
  from childLoop_ok [OF cs, of "mkParents pts" childOverlap "[]"]
  obtain children where ch: "childLoop (mkParents pts) childSize childOverlap [] = Some children"
    by blast
  have "nonspace (concat (stripOverlap parentOverlap pts)) = nonspace t"
    if "\<not> stop_before_space t \<or> length t \<le> parentSize"
  proof -
    from that long_line_stop_needs [of parentSize 0 t]
    have "\<not> long_line_stop parentSize 0 t" by auto
    with pts(3) show ?thesis by simp
  qed
  with pts ch show ?thesis by (simp add: parentChildChunk_def text_mkParents)
qed

theorem chunk_coverage_up_to_cut_stops_witness:
  "(0::nat) < 2000 \<and> (0::nat) < 400 \<and> \<not> stop_before_space (replicate 4000 97)
   \<and> (\<exists>parents children.
         parentChildChunk (replicate 4000 97) 2000 200 400 50 = Some (parents, children)
         \<and> map text_p parents = [replicate 2000 97, replicate 200 97 @ [32] @ replicate 2000 97]
         \<and> nonspace (concat (stripOverlap 200 (map text_p parents))) = nonspace (replicate 4000 97))"
proof -
  have no: "\<not> stop_before_space (replicate 4000 (97::nat))"
    by (rule no_stop_no_stop_before_space) simp
  from chunk_coverage_up_to_cut_stops [of 2000 400 "replicate 4000 97" 200 50] no
  obtain parents children where run:
    "parentChildChunk (replicate 4000 97) 2000 200 400 50 = Some (parents, children)"
    "nonspace (concat (stripOverlap 200 (map text_p parents))) = nonspace (replicate 4000 97)"
    by auto
  from run(1) have "map text_p parents
      = [replicate 2000 97, replicate 200 97 @ [32] @ replicate 2000 97]"
    using unbroken_text_at_default_sizes
    by (auto simp: parentChildChunk_def Let_def text_mkParents split: option.splits)
  with run have "\<exists>parents children.
         parentChildChunk (replicate 4000 97) 2000 200 400 50 = Some (parents, children)
         \<and> map text_p parents = [replicate 2000 97, replicate 200 97 @ [32] @ replicate 2000 97]
         \<and> nonspace (concat (stripOverlap 200 (map text_p parents))) = nonspace (replicate 4000 97)"
    by (intro exI conjI)
  moreover have "(0::nat) < 2000" "(0::nat) < 400" by simp_all
  ultimately show ?thesis using no by (intro conjI)
qed

text \<open>
  The claim as stated fails on a document of 1500 letters, ". " and 1500 letters: the
  parents are the two runs of letters, and the full stop is in neither.
\<close>

theorem chunk_coverage_loses_full_stop:
  "\<exists>parents children.
     parentChildChunk (replicate 1500 97 @ [46, 32] @ replicate 1500 98) 2000 200 400 50
       = Some (parents, children)
     \<and> map text_p parents = [replicate 1500 97, replicate 200 97 @ [32] @ replicate 1500 98]
     \<and> nonspace (concat (stripOverlap 200 (map text_p parents)))
         \<noteq> nonspace (replicate 1500 97 @ [46, 32] @ replicate 1500 98)"
proof -
  let ?A = "replicate 1500 (97::nat)" and ?B = "replicate 1500 (98::nat)"
  let ?pts = "[?A, replicate 200 97 @ [32] @ ?B]"
  have c: "(0::nat) < 400" by simp
  from childLoop_ok [OF c, of "mkParents ?pts" 50 "[]"]
  obtain children where "childLoop (mkParents ?pts) 400 50 [] = Some children" by blast
  then have run: "parentChildChunk (?A @ [46, 32] @ ?B) 2000 200 400 50
                    = Some (mkParents ?pts, children)"
    using two_sentences_at_default_sizes by (simp add: parentChildChunk_def)
  have strip: "stripOverlap 200 ?pts = [?A, ?B]"
    by (simp add: stripOverlap_def slice_last_def)
  have "length (nonspace (concat [?A, ?B])) = 3000"
    by (simp add: nonspace_def is_ws_def filter_replicate)
  moreover have "length (nonspace (?A @ [46, 32] @ ?B)) = 3001"
    by (simp add: nonspace_def is_ws_def filter_replicate)
  ultimately have "nonspace (concat [?A, ?B]) \<noteq> nonspace (?A @ [46, 32] @ ?B)"
    by (metis numeral_eq_iff semiring_norm(88) Suc_numeral n_not_Suc_n add_2_eq_Suc' less_irrefl
          less_add_one numeral_plus_one)
  with run strip show ?thesis by (simp add: text_mkParents)
qed

text \<open>
  Claim C4, chunk size bound. As stated (length at most the target size plus one overlap
  length) it fails by one: the overlap is joined to the chunk with a space. What holds
  for every text and positive sizes: every parent has at most
  \<open>parentSize + parentOverlap + 1\<close> code units and every child at most
  \<open>childSize + childOverlap + 1\<close>.
\<close>

theorem chunk_size_bound:
  "0 < parentSize \<Longrightarrow> 0 < childSize \<Longrightarrow>
     \<exists>parents children.
        parentChildChunk t parentSize parentOverlap childSize childOverlap
          = Some (parents, children)
        \<and> (\<forall>p \<in> set parents. length (text_p p) \<le> parentSize + parentOverlap + 1)
        \<and> (\<forall>c \<in> set children. length (text_c c) \<le> childSize + childOverlap + 1)"
proof -
  assume ps: "0 < parentSize" and cs: "0 < childSize"
  from splitAndMerge_ok [OF ps, of "\<lambda>c. \<not> is_ws c \<and> c \<noteq> 46" t parentOverlap]
  obtain pts where pts: "splitAndMerge t parentSize parentOverlap = Some pts"
    "\<forall>c \<in> set pts. length c \<le> parentSize + parentOverlap + 1"
    by auto
  from childLoop_ok [OF cs, of "mkParents pts" childOverlap "[]"]
  obtain children where ch: "childLoop (mkParents pts) childSize childOverlap [] = Some children"
    "\<forall>c \<in> set children. length (text_c c) \<le> childSize + childOverlap + 1"
    by auto
  have "\<forall>p \<in> set (mkParents pts). length (text_p p) \<le> parentSize + parentOverlap + 1"
    using pts(2) text_mkParents [of pts] by (metis (no_types, lifting) image_eqI list.set_map)
  with pts(1) ch show ?thesis by (simp add: parentChildChunk_def)
qed

theorem chunk_size_bound_witness:
  "(0::nat) < 2000 \<and> (0::nat) < 400
   \<and> (\<exists>parents children.
         parentChildChunk (js ''One. Two'') 2000 200 400 50 = Some (parents, children)
         \<and> (\<forall>p \<in> set parents. length (text_p p) \<le> 2000 + 200 + 1)
         \<and> (\<forall>c \<in> set children. length (text_c c) \<le> 400 + 50 + 1))"
  using chunk_size_bound [of 2000 400 "js ''One. Two''" 200 50] by simp

text \<open>
  The claim as stated fails on 4000 letters with no separator: the second parent is the
  last 200 letters of the first, a space and 2000 letters.
\<close>

theorem chunk_size_bound_exceeded:
  "\<exists>parents children.
     parentChildChunk (replicate 4000 97) 2000 200 400 50 = Some (parents, children)
     \<and> map text_p parents = [replicate 2000 97, replicate 200 97 @ [32] @ replicate 2000 97]
     \<and> length (text_p (parents ! 1)) = 2201
     \<and> \<not> length (text_p (parents ! 1)) \<le> 2000 + 200"
proof -
  let ?pts = "[replicate 2000 (97::nat), replicate 200 97 @ [32] @ replicate 2000 97]"
  have c: "(0::nat) < 400" by simp
  from childLoop_ok [OF c, of "mkParents ?pts" 50 "[]"]
  obtain children where "childLoop (mkParents ?pts) 400 50 [] = Some children" by blast
  then have "parentChildChunk (replicate 4000 97) 2000 200 400 50
               = Some (mkParents ?pts, children)"
    using unbroken_text_at_default_sizes by (simp add: parentChildChunk_def)
  moreover have "text_p (mkParents ?pts ! 1) = ?pts ! 1"
    using nth_mkParents [of 1 ?pts] by simp
  ultimately show ?thesis by (simp add: text_mkParents)
qed

text \<open>
  Claim C8, parent/child linkage. Every child's \<open>parentId\<close> is the id of exactly one
  parent of the same run, and every parent whose text does not end in whitespace has a
  child (lemma \<open>children_resolve_and_parents_have_children\<close>). A parent ends in
  whitespace when the merging path of \<open>mergeChunks\<close> appends a split that trims to
  nothing, where the single-split path would drop it. At the sizes the upload route
  uses, 249 times ". ", a full stop, a blank line and 1500 spaces are one parent,
  250 times ". ", which the child pass splits at ". " into empty pieces only: the parent
  has a non-empty text and no child. The text does not trim to nothing, so the upload
  route chunks it: it embeds no text, upserts no vector and reports one parent and no
  chunk.
\<close>

theorem stops_and_blanks_parent_without_child:
  "parentChildChunk stops_then_blanks 2000 200 400 50
     = Some ([\<lparr>id_p = js ''p-0'', text_p = concat (replicate 250 [46, 32]), index_p = 0\<rparr>], [])
   \<and> trim stops_then_blanks \<noteq> []
   \<and> uploadPOST (parsing stops_then_blanks)
        (Inr \<lparr>form_file = Some (text_file stops_then_blanks), form_sessionId = Some (js ''s1'')\<rparr>)
      = Some ([ParseCall (encode stops_then_blanks) (js ''notes.txt''), EmbedTextsCall [],
               UpsertCall (js ''s1'') []],
              Uploaded \<lparr>summary_id = js ''d1'', summary_fileName = js ''notes.txt'',
                        chunkCount = 0, parentCount = 1,
                        summary_fileSize = length (encode stops_then_blanks)\<rparr>)"
proof -
  have "mkParents [concat (replicate 250 [46, 32])]
          = [\<lparr>id_p = js ''p-0'', text_p = concat (replicate 250 [46, 32]), index_p = 0\<rparr>]"
    by (simp add: mkParents_def enumerate_simps js_def decimal.simps [of 0])
  then have run: "parentChildChunk stops_then_blanks 2000 200 400 50
     = Some ([\<lparr>id_p = js ''p-0'', text_p = concat (replicate 250 [46, 32]), index_p = 0\<rparr>], [])"
    using stops_then_blanks_at_default_sizes stops_and_spaces_give_no_child
    by (simp add: parentChildChunk_def pushChildren_def stops_then_blanks_def)
  have "nonspace (trim stops_then_blanks) = nonspace stops_then_blanks"
    unfolding nonspace_def by (rule filter_trim) simp
  moreover have "46 \<in> set (nonspace stops_then_blanks)"
    by (simp add: nonspace_def is_ws_def stops_then_blanks_def)
  ultimately have guard: "trim stops_then_blanks \<noteq> []"
    by (metis empty_iff empty_set nonspace_def filter.simps(1))
  have sid: "js ''s1'' \<noteq> []" by (simp add: js_def)
  have route: "uploadPOST (parsing stops_then_blanks)
        (Inr \<lparr>form_file = Some (text_file stops_then_blanks), form_sessionId = Some (js ''s1'')\<rparr>)
      = Some ([ParseCall (encode stops_then_blanks) (js ''notes.txt''), EmbedTextsCall [],
               UpsertCall (js ''s1'') []],
              Uploaded \<lparr>summary_id = js ''d1'', summary_fileName = js ''notes.txt'',
                        chunkCount = 0, parentCount = 1,
                        summary_fileSize = length (encode stops_then_blanks)\<rparr>)"
    using run guard sid
    by (simp add: uploadPOST_def parsing_def text_file_def mkVectors_def)
  from run guard route show ?thesis by (intro conjI)
qed




section \<open>The retrieval orchestrator: context assembly and reformulation\<close>

lemma collectParents_first_matches:
  "seen = pid_of ` set earlier - {[]} \<Longrightarrow>
     collectParents results seen acc
       = acc @ filter (\<lambda>t. t \<noteq> []) (map pText_of (first_matches_after earlier results))"
proof (induction results arbitrary: earlier seen acc)
  case Nil
  show ?case by simp
next
  case (Cons r results)
  show ?case
  proof (cases "pid_of r \<noteq> [] \<and> pid_of r \<in> seen")
    case True
    then have "seen = pid_of ` set (earlier @ [r]) - {[]}" using Cons.prems by auto
    from Cons.IH [OF this, of acc] True Cons.prems show ?thesis by (auto simp: Let_def)
  next
    case False
    let ?seen' = "if pid_of r \<noteq> [] then insert (pid_of r) seen else seen"
    have seen': "?seen' = pid_of ` set (earlier @ [r]) - {[]}" using Cons.prems by auto
    have kept: "pid_of r = [] \<or> pid_of r \<notin> pid_of ` set earlier"
      using False Cons.prems by auto
    let ?acc' = "if pText_of r \<noteq> [] then acc @ [pText_of r] else acc"
    have "collectParents (r # results) seen acc = collectParents results ?seen' ?acc'"
      by (simp only: collectParents.simps Let_def False if_False)
    also have "\<dots> = ?acc' @ filter (\<lambda>t. t \<noteq> [])
                         (map pText_of (first_matches_after (earlier @ [r]) results))"
      by (rule Cons.IH [OF seen'])
    finally show ?thesis using kept by auto
  qed
qed

lemma first_matches_after_once:
  "p \<noteq> [] \<Longrightarrow>
     filter (\<lambda>r. pid_of r = p) (first_matches_after earlier results)
       = (if p \<in> pid_of ` set earlier then []
          else case find (\<lambda>r. pid_of r = p) results of None \<Rightarrow> [] | Some r \<Rightarrow> [r])"
proof (induction results arbitrary: earlier)
  case Nil
  show ?case by simp
next
  case (Cons r results)
  from Cons.IH [OF Cons.prems, of "earlier @ [r]"] Cons.prems show ?case by auto
qed

lemma first_matches_after_subseq: "subseq (first_matches_after earlier results) results"
  by (induction results arbitrary: earlier) auto

lemma first_matches_after_idless:
  "filter (\<lambda>r. pid_of r = []) (first_matches_after earlier results)
     = filter (\<lambda>r. pid_of r = []) results"
  by (induction results arbitrary: earlier) auto

lemma sublist_js_join: "x \<in> set xs \<Longrightarrow> sublist x (js_join sep xs)"
proof (induction sep xs rule: js_join.induct)
  case (1 sep)
  then show ?case by simp
next
  case (2 sep y)
  then show ?case by simp
next
  case (3 sep y z zs)
  show ?case
  proof (cases "x = y")
    case True
    then show ?thesis by (simp add: sublist_append_rightI)
  next
    case False
    with 3 have "sublist x (js_join sep (z # zs))" by simp
    then obtain ps ss where "js_join sep (z # zs) = ps @ x @ ss" by (auto simp: sublist_def)
    then have "js_join sep (y # z # zs) = (y @ sep @ ps) @ x @ ss" by simp
    then show ?thesis unfolding sublist_def by blast
  qed
qed

lemma js_join_nonempty: "xs \<noteq> [] \<Longrightarrow> \<forall>x \<in> set xs. x \<noteq> [] \<Longrightarrow> js_join sep xs \<noteq> []"
  by (induction sep xs rule: js_join.induct) auto

text \<open>
  Claim C5, deduplication by parent. As stated it fails when the first match of a parent
  carries no text: the parent id is taken all the same, the later matches of that parent
  are discarded, and the parent's text is not in the context (below). What holds for
  every list of search results, whatever their scores: the context is the non-empty
  texts of the first matches joined by the delimiter, so that it contains each of them,
  or the literal sentinel sentence when there is none, as with no results; it is never
  the empty string. The first matches are the results in their order with, for every
  parent id, its first match only, and with every match that has no parent id.
\<close>

theorem context_joins_first_match_texts:
  "buildContext results
     = (if filter (\<lambda>t. t \<noteq> []) (map pText_of (first_matches results)) = []
        then js ''No relevant context found in the uploaded documents.''
        else js_join ([10, 10] @ js ''---'' @ [10, 10])
               (filter (\<lambda>t. t \<noteq> []) (map pText_of (first_matches results))))
   \<and> subseq (first_matches results) results
   \<and> (\<forall>p. p \<noteq> [] \<longrightarrow>
         filter (\<lambda>r. pid_of r = p) (first_matches results)
           = (case find (\<lambda>r. pid_of r = p) results of None \<Rightarrow> [] | Some r \<Rightarrow> [r]))
   \<and> filter (\<lambda>r. pid_of r = []) (first_matches results) = filter (\<lambda>r. pid_of r = []) results
   \<and> (\<forall>r \<in> set (first_matches results).
         pText_of r \<noteq> [] \<longrightarrow> sublist (pText_of r) (buildContext results))
   \<and> buildContext [] = js ''No relevant context found in the uploaded documents.''
   \<and> buildContext results \<noteq> []"
proof -
  let ?texts = "filter (\<lambda>t. t \<noteq> []) (map pText_of (first_matches results))"
  have texts: "collectParents results {} [] = ?texts"
    using collectParents_first_matches [of "{}" "[]" results "[]"]
    by (simp add: first_matches_def)
  have ctx: "buildContext results
     = (if ?texts = [] then js ''No relevant context found in the uploaded documents.''
        else js_join ([10, 10] @ js ''---'' @ [10, 10]) ?texts)"
    unfolding buildContext_def texts by (simp add: NO_CONTEXT_def CONTEXT_DELIMITER_def)
  have once: "\<forall>p. p \<noteq> [] \<longrightarrow>
         filter (\<lambda>r. pid_of r = p) (first_matches results)
           = (case find (\<lambda>r. pid_of r = p) results of None \<Rightarrow> [] | Some r \<Rightarrow> [r])"
    using first_matches_after_once [of _ "[]" results] by (simp add: first_matches_def)
  have sub: "subseq (first_matches results) results"
    by (simp add: first_matches_def first_matches_after_subseq)
  have idless: "filter (\<lambda>r. pid_of r = []) (first_matches results)
                  = filter (\<lambda>r. pid_of r = []) results"
    by (simp add: first_matches_def first_matches_after_idless)
  have holds: "\<forall>r \<in> set (first_matches results).
         pText_of r \<noteq> [] \<longrightarrow> sublist (pText_of r) (buildContext results)"
  proof (intro ballI impI)
    fix r assume r: "r \<in> set (first_matches results)" "pText_of r \<noteq> []"
    then have "pText_of r \<in> set ?texts" by simp
    moreover from this have "?texts \<noteq> []" by (metis empty_iff empty_set)
    ultimately show "sublist (pText_of r) (buildContext results)"
      unfolding ctx using sublist_js_join [of "pText_of r" ?texts] by simp
  qed
  have none: "buildContext [] = js ''No relevant context found in the uploaded documents.''"
    by (simp add: buildContext_def NO_CONTEXT_def)
  have "js ''No relevant context found in the uploaded documents.'' \<noteq> []"
    by (simp add: js_def)
  moreover have "js_join ([10, 10] @ js ''---'' @ [10, 10]) ?texts \<noteq> []" if "?texts \<noteq> []"
    by (rule js_join_nonempty [OF that]) simp
  ultimately have nonempty: "buildContext results \<noteq> []" unfolding ctx by simp
  from ctx sub once idless holds none nonempty show ?thesis by (intro conjI)
qed

theorem context_joins_first_match_texts_witness:
  "js ''p-0'' \<noteq> []
   \<and> first_matches [hit_a, hit_b, hit_a'] = [hit_a, hit_b]
   \<and> filter (\<lambda>r. pid_of r = js ''p-0'') (first_matches [hit_a, hit_b, hit_a']) = [hit_a]
   \<and> pText_of hit_a = js ''Alpha''
   \<and> sublist (js ''Alpha'') (buildContext [hit_a, hit_b, hit_a'])
   \<and> buildContext [hit_a, hit_b, hit_a']
        = js ''Alpha'' @ [10, 10] @ js ''---'' @ [10, 10] @ js ''Beta''
   \<and> buildContext [] = js ''No relevant context found in the uploaded documents.''"
proof -
  have p0: "js ''p-0'' \<noteq> []" by (simp add: js_def)
  have first: "first_matches [hit_a, hit_b, hit_a'] = [hit_a, hit_b]"
    by (simp add: first_matches_def hit_a_def hit_b_def hit_a'_def pid_of_def js_def)
  have found: "find (\<lambda>r. pid_of r = js ''p-0'') [hit_a, hit_b, hit_a'] = Some hit_a"
    by (simp add: hit_a_def pid_of_def)
  have texts: "filter (\<lambda>t. t \<noteq> []) (map pText_of [hit_a, hit_b]) = [js ''Alpha'', js ''Beta'']"
    by (simp add: hit_a_def hit_b_def pText_of_def js_def)
  have alpha: "pText_of hit_a = js ''Alpha''" by (simp add: hit_a_def pText_of_def)
  have full: "js ''Alpha'' \<noteq> []" by (simp add: js_def)
  note inst = context_joins_first_match_texts [of "[hit_a, hit_b, hit_a']"]
  from inst first alpha full
  have held: "sublist (js ''Alpha'') (buildContext [hit_a, hit_b, hit_a'])" by auto
  from inst p0 first found texts
  have rest: "filter (\<lambda>r. pid_of r = js ''p-0'') (first_matches [hit_a, hit_b, hit_a']) = [hit_a]"
    "buildContext [hit_a, hit_b, hit_a']
        = js ''Alpha'' @ [10, 10] @ js ''---'' @ [10, 10] @ js ''Beta''"
    "buildContext [] = js ''No relevant context found in the uploaded documents.''"
    by simp_all
  from p0 first rest alpha held show ?thesis by (intro conjI)
qed

text \<open>
  The claim as stated fails on two matches of parent p-2, the first without any text and
  the second with the text "Gamma": the context is the sentinel sentence, and "Gamma" is
  not in it.
\<close>

theorem first_match_without_text_hides_parent:
  "buildContext [hit_bare, hit_late] = js ''No relevant context found in the uploaded documents.''
   \<and> pid_of hit_bare = pid_of hit_late
   \<and> pText_of hit_late = js ''Gamma''
   \<and> \<not> sublist (js ''Gamma'') (buildContext [hit_bare, hit_late])"
proof -
  have ctx: "buildContext [hit_bare, hit_late]
               = js ''No relevant context found in the uploaded documents.''"
    by (simp add: buildContext_def hit_bare_def hit_late_def pid_of_def pText_of_def
          NO_CONTEXT_def js_def Let_def)
  have "71 \<notin> set (js ''No relevant context found in the uploaded documents.'')"
    by (simp add: js_def)
  moreover have "71 \<in> set (js ''Gamma'')" by (simp add: js_def)
  ultimately have "\<not> sublist (js ''Gamma'')
                       (js ''No relevant context found in the uploaded documents.'')"
    using set_mono_sublist by blast
  with ctx show ?thesis by (simp add: hit_bare_def hit_late_def pid_of_def pText_of_def)
qed

text \<open>
  Claim C7, reformulation without history. With an empty summary and no recent turns
  \<open>reformulateQuery\<close> returns the question with zero prompt and completion tokens, and
  the list of requests it sent to the completion service is empty, whatever that service
  would have answered.
\<close>

theorem reformulation_skipped_without_history:
  "reformulateQuery create question [] []
     = ([], Inr \<lparr>query = question, query_tokens = \<lparr>prompt = 0, completion = 0\<rparr>\<rparr>)"
  by (simp add: reformulateQuery_def)

section \<open>The memory manager\<close>

lemma js_slice_empty_iff:
  "0 \<le> start \<Longrightarrow> 0 \<le> end \<Longrightarrow> end \<le> int (length xs) \<Longrightarrow>
     js_slice xs start end = [] \<longleftrightarrow> end \<le> start"
  by (auto simp: js_slice_def Let_def min_def)

lemma manageMemory_step:
  assumes "0 \<le> cnt" and "cnt \<le> max 0 (int (length prev) - 6)"
    and "snd (manageMemory create prev smry cnt) = Inr mem"
  shows "cnt \<le> currentSummaryMsgCount mem
         \<and> currentSummaryMsgCount mem \<le> max 0 (int (length prev) - 6)"
proof (cases "length prev > 6")
  case False
  then show ?thesis using assms by (auto simp: manageMemory_def MAX_RECENT_def)
next
  case True
  show ?thesis
  proof (cases "newOverflow prev cnt = []")
    case True
    then show ?thesis using assms \<open>length prev > 6\<close>
      by (auto simp: manageMemory_def MAX_RECENT_def Let_def)
  next
    case False
    then have "cnt < int (length prev) - 6"
      using js_slice_empty_iff [of cnt "int (length prev) - 6" prev] assms(1) True
      by (auto simp: newOverflow_def MAX_RECENT_def)
    moreover have "currentSummaryMsgCount mem = int (length prev) - 6"
      using assms(3) False True
      by (auto simp: manageMemory_def MAX_RECENT_def Let_def split: prod.splits sum.splits)
    ultimately show ?thesis by simp
  qed
qed

lemma thread_invariant:
  "0 \<le> idx st \<Longrightarrow>
   (requests \<noteq> [] \<longrightarrow> idx st \<le> max 0 (int (length (priorTurns (hd requests))) - 6)) \<Longrightarrow>
   growing (map priorTurns requests) \<Longrightarrow>
     sorted (idx st # map idx (thread st requests))
     \<and> list_all2 (\<lambda>request st'. 0 \<le> idx st'
                      \<and> idx st' \<le> max 0 (int (length (priorTurns request)) - 6))
         requests (thread st requests)"
proof (induction requests arbitrary: st)
  case Nil
  show ?case by simp
next
  case (Cons request later)
  let ?prev = "priorTurns request"
  let ?r = "snd (manageMemory (service request) ?prev (state_summary st) (idx st))"
  let ?st' = "case ?r of Inl e \<Rightarrow> st
     | Inr mem \<Rightarrow>
         if delivered request
         then \<lparr>state_summary = currentSummary mem,
               summarizedThroughIndex = currentSummaryMsgCount mem\<rparr>
         else st"
  have bound: "idx st \<le> max 0 (int (length ?prev) - 6)" using Cons.prems(2) by simp
  have step: "idx st \<le> idx ?st' \<and> idx ?st' \<le> max 0 (int (length ?prev) - 6)"
  proof (cases ?r)
    case (Inl e)
    then show ?thesis using bound by simp
  next
    case (Inr mem)
    from manageMemory_step [OF Cons.prems(1) bound Inr] Inr bound show ?thesis by simp
  qed
  have "later \<noteq> [] \<longrightarrow> idx ?st' \<le> max 0 (int (length (priorTurns (hd later))) - 6)"
  proof
    assume "later \<noteq> []"
    then obtain q rest where later: "later = q # rest" by (cases later) auto
    then have "prefix ?prev (priorTurns q)" using Cons.prems(3) by simp
    then have "length ?prev \<le> length (priorTurns q)" by (rule prefix_length_le)
    then have "max 0 (int (length ?prev) - 6) \<le> max 0 (int (length (priorTurns q)) - 6)"
      by simp
    with step have "idx ?st' \<le> max 0 (int (length (priorTurns q)) - 6)"
      by (meson order_trans)
    then show "idx ?st' \<le> max 0 (int (length (priorTurns (hd later))) - 6)"
      using later by simp
  qed
  moreover have "0 \<le> idx ?st'" using step Cons.prems(1) by simp
  moreover have "growing (map priorTurns later)" using Cons.prems(3) by (cases later) auto
  ultimately have IH: "sorted (idx ?st' # map idx (thread ?st' later))
     \<and> list_all2 (\<lambda>request st'. 0 \<le> idx st'
                      \<and> idx st' \<le> max 0 (int (length (priorTurns request)) - 6))
         later (thread ?st' later)"
    using Cons.IH [of ?st'] by blast
  have th: "thread st (request # later) = ?st' # thread ?st' later"
    by (simp add: Let_def)
  have "sorted (idx st # idx ?st' # map idx (thread ?st' later))"
    using IH step by (simp only: sorted2)
  then show ?case unfolding th using IH step \<open>0 \<le> idx ?st'\<close> by simp
qed

lemma manageMemory_repeat:
  assumes "manageMemory create prev smry cnt = (calls, Inr mem)"
  shows "manageMemory create' prev (currentSummary mem) (currentSummaryMsgCount mem)
           = ([], Inr (mem\<lparr>summaryTokens := \<lparr>prompt = 0, completion = 0\<rparr>\<rparr>))"
proof (cases "length prev > 6")
  case False
  then show ?thesis using assms by (auto simp: manageMemory_def MAX_RECENT_def)
next
  case True
  have self: "newOverflow prev (int (length prev) - 6) = []"
    using True by (simp add: newOverflow_def MAX_RECENT_def js_slice_def Let_def)
  show ?thesis
  proof (cases "newOverflow prev cnt = []")
    case True
    then show ?thesis using assms \<open>length prev > 6\<close>
      by (auto simp: manageMemory_def MAX_RECENT_def Let_def)
  next
    case False
    then show ?thesis using assms True self
      by (auto simp: manageMemory_def MAX_RECENT_def Let_def split: prod.splits sum.splits)
  qed
qed

text \<open>
  Claim C1, summary boundary. For a conversation that grows by appending, threaded from
  the empty state: the index never decreases from one request to the next, and after
  every request it is at least 0 and at most the larger of 0 and the number of prior
  turns minus 6; a call with at most 6 prior turns or with no new overflow sends no
  request and returns summary and index as they were; and a call repeated on the state
  it returned changes nothing. The bound of the claim as stated, the number of prior
  turns minus 6, is negative while there are fewer than 6 prior turns, and the index
  is 0 then.
\<close>

theorem summary_boundary_monotone:
  assumes "growing (map priorTurns requests)"
  shows "sorted (0 # map summarizedThroughIndex
                      (thread \<lparr>state_summary = [], summarizedThroughIndex = 0\<rparr> requests))
    \<and> list_all2 (\<lambda>request st. 0 \<le> summarizedThroughIndex st
                    \<and> summarizedThroughIndex st
                        \<le> max 0 (int (length (priorTurns request)) - int MAX_RECENT))
        requests (thread \<lparr>state_summary = [], summarizedThroughIndex = 0\<rparr> requests)
    \<and> (\<forall>create prev smry cnt.
          length prev \<le> MAX_RECENT \<or> newOverflow prev cnt = [] \<longrightarrow>
          (\<exists>recent. manageMemory create prev smry cnt
             = ([], Inr \<lparr>currentSummary = smry, currentSummaryMsgCount = cnt,
                         summaryTokens = \<lparr>prompt = 0, completion = 0\<rparr>,
                         recentMessages = recent\<rparr>)))
    \<and> (\<forall>create create' prev smry cnt calls mem.
          manageMemory create prev smry cnt = (calls, Inr mem) \<longrightarrow>
          manageMemory create' prev (currentSummary mem) (currentSummaryMsgCount mem)
            = ([], Inr (mem\<lparr>summaryTokens := \<lparr>prompt = 0, completion = 0\<rparr>\<rparr>)))"
proof -
  let ?init = "\<lparr>state_summary = [], summarizedThroughIndex = 0\<rparr>"
  have "sorted (idx ?init # map idx (thread ?init requests))
     \<and> list_all2 (\<lambda>request st'. 0 \<le> idx st'
                      \<and> idx st' \<le> max 0 (int (length (priorTurns request)) - 6))
         requests (thread ?init requests)"
    by (rule thread_invariant) (use assms in simp_all)
  moreover have "\<exists>recent. manageMemory create prev smry cnt
             = ([], Inr \<lparr>currentSummary = smry, currentSummaryMsgCount = cnt,
                         summaryTokens = \<lparr>prompt = 0, completion = 0\<rparr>,
                         recentMessages = recent\<rparr>)"
    if "length prev \<le> MAX_RECENT \<or> newOverflow prev cnt = []" for create prev smry cnt
    using that by (auto simp: manageMemory_def Let_def)
  ultimately show ?thesis using manageMemory_repeat by (simp add: MAX_RECENT_def)
qed

lemma example_thread:
  "map summarizedThroughIndex
         (thread \<lparr>state_summary = [], summarizedThroughIndex = 0\<rparr> growing_chat)
       = [0, 0, 2]"
  by (simp add: growing_chat_def manageMemory_def MAX_RECENT_def newOverflow_def js_slice_def
        Let_def summarizeOverflow_def summarizer_def content_or_def or_else_def
        trim_def is_ws_def js_def)

theorem summary_boundary_monotone_witness:
  "growing (map priorTurns growing_chat)
   \<and> map summarizedThroughIndex
         (thread \<lparr>state_summary = [], summarizedThroughIndex = 0\<rparr> growing_chat)
       = [0, 0, 2]
   \<and> sorted (0 # map summarizedThroughIndex
         (thread \<lparr>state_summary = [], summarizedThroughIndex = 0\<rparr> growing_chat))
   \<and> list_all2 (\<lambda>request st. 0 \<le> summarizedThroughIndex st
                    \<and> summarizedThroughIndex st
                        \<le> max 0 (int (length (priorTurns request)) - int MAX_RECENT))
        growing_chat
        (thread \<lparr>state_summary = [], summarizedThroughIndex = 0\<rparr> growing_chat)"
proof -
  have g: "growing (map priorTurns growing_chat)" by (simp add: growing_chat_def)
  from summary_boundary_monotone [OF g] g example_thread show ?thesis by blast
qed

text \<open>
  The claim as stated fails at the start of every conversation: with two prior turns the
  index stays 0, above 2 - 6.
\<close>

theorem index_above_window_bound_at_start:
  "thread \<lparr>state_summary = [], summarizedThroughIndex = 0\<rparr>
     [\<lparr>service = summarizer, priorTurns = [m_user, m_ai], delivered = True\<rparr>]
     = [\<lparr>state_summary = [], summarizedThroughIndex = 0\<rparr>]
   \<and> \<not> (0 \<le> int (length [m_user, m_ai]) - int MAX_RECENT)"
  by (simp add: manageMemory_def MAX_RECENT_def)

lemma newOverflow_retried:
  assumes "0 \<le> cnt" and "newOverflow prev cnt \<noteq> []" and "length prev > MAX_RECENT"
  shows "prefix (newOverflow prev cnt) (newOverflow (prev @ newer) cnt)"
proof -
  let ?n = "int (length prev) - 6"
  have n: "cnt < ?n" "0 \<le> ?n"
    using assms by (auto simp: newOverflow_def js_slice_def MAX_RECENT_def Let_def
                       split: if_splits)
  let ?a = "nat (?n - cnt)" and ?b = "nat (?n + int (length newer) - cnt)"
  have old: "newOverflow prev cnt = take ?a (drop (nat cnt) prev)"
    using n assms(1) by (simp add: newOverflow_def js_slice_def MAX_RECENT_def Let_def min_def)
  have new: "newOverflow (prev @ newer) cnt = take ?b (drop (nat cnt) prev @ newer)"
    using n assms(1)
    by (simp add: newOverflow_def js_slice_def MAX_RECENT_def Let_def min_def
          algebra_simps)
  have "?a \<le> length (drop (nat cnt) prev)" using n assms(1) by simp
  then have "take ?a (drop (nat cnt) prev) = take ?a (take ?b (drop (nat cnt) prev @ newer))"
    by (simp add: min_def)
  then show ?thesis unfolding old new by (metis take_is_prefix)
qed

text \<open>
  Claim C2, summarization failure. The failure is not caught: the memory management block
  throws, \<open>POST\<close> answers with status 500 and the message of the error after that one
  call, and nothing is streamed, so no state is returned and the caller keeps its summary
  and index; the overflow of the next request then starts with the same turns. It is a
  request-level failure, not a fallback to the previous summary in the response.
\<close>

theorem summarization_failure_fails_request:
  assumes "req_sessionId body = Some sessionId" and "sessionId \<noteq> []" and "apiKeySet srv"
    and "req_messages body = Some messages" and "messages \<noteq> []"
    and "role (last messages) = js ''user''"
    and "prev = js_slice messages 0 (- 1)"
    and "smry = (case req_summary body of None \<Rightarrow> [] | Some s \<Rightarrow> s)"
    and "cnt = (case req_summaryMsgCount body of None \<Rightarrow> 0 | Some n \<Rightarrow> n)"
    and "length prev > MAX_RECENT" and "newOverflow prev cnt \<noteq> []"
    and "createChat srv (summarizeRequest smry (newOverflow prev cnt)) = Inl e"
  shows "manageMemory (createChat srv) prev smry cnt
           = ([summarizeRequest smry (newOverflow prev cnt)], Inl e)
    \<and> POST srv (Some body)
           = ([ChatCall (summarizeRequest smry (newOverflow prev cnt))],
              Json 500 (error_message e))
    \<and> thread \<lparr>state_summary = smry, summarizedThroughIndex = cnt\<rparr>
          (\<lparr>service = createChat srv, priorTurns = prev, delivered = d\<rparr> # later)
        = \<lparr>state_summary = smry, summarizedThroughIndex = cnt\<rparr>
          # thread \<lparr>state_summary = smry, summarizedThroughIndex = cnt\<rparr> later
    \<and> (0 \<le> cnt \<longrightarrow> prefix (newOverflow prev cnt) (newOverflow (prev @ newer) cnt))"
proof -
  have mem: "manageMemory (createChat srv) prev smry cnt
           = ([summarizeRequest smry (newOverflow prev cnt)], Inl e)"
    using assms(10-12) by (simp add: manageMemory_def summarizeOverflow_def Let_def)
  then have "handleChat srv messages sessionId (req_selectedDocuments body) smry cnt
          = ([ChatCall (summarizeRequest smry (newOverflow prev cnt))], Inl e)"
    using assms(7) by (simp add: handleChat_def Let_def)
  then have "POST srv (Some body)
           = ([ChatCall (summarizeRequest smry (newOverflow prev cnt))],
              Json 500 (error_message e))"
    using assms(1-6) assms(8,9) by (simp add: POST_def)
  moreover have "thread \<lparr>state_summary = smry, summarizedThroughIndex = cnt\<rparr>
          (\<lparr>service = createChat srv, priorTurns = prev, delivered = d\<rparr> # later)
        = \<lparr>state_summary = smry, summarizedThroughIndex = cnt\<rparr>
          # thread \<lparr>state_summary = smry, summarizedThroughIndex = cnt\<rparr> later"
    using mem by (simp add: Let_def)
  ultimately show ?thesis using mem newOverflow_retried [OF _ assms(11) assms(10)] by blast
qed

lemma long_chat_overflow:
  "js_slice [m_user, m_ai, m_user, m_ai, m_user, m_ai, m_user, m_user] 0 (- 1)
     = [m_user, m_ai, m_user, m_ai, m_user, m_ai, m_user]"
  "newOverflow [m_user, m_ai, m_user, m_ai, m_user, m_ai, m_user] 0 = [m_user]"
  by (simp_all add: js_slice_def newOverflow_def MAX_RECENT_def)

lemma example_facts:
  "role m_user = js ''user''" "content m_user = js ''What is it?''" "js ''s1'' \<noteq> []"
  "trim (js ''   '') = []"
  by (simp_all add: m_user_def js_def trim_def is_ws_def)

theorem summarization_failure_fails_request_witness:
  "manageMemory (createChat down) [m_user, m_ai, m_user, m_ai, m_user, m_ai, m_user] [] 0
           = ([summarizeRequest [] [m_user]], Inl (Error (js ''429 rate limit'')))
    \<and> POST down (Some long_chat)
           = ([ChatCall (summarizeRequest [] [m_user])], Json 500 (js ''429 rate limit''))
    \<and> thread \<lparr>state_summary = [], summarizedThroughIndex = 0\<rparr>
          [\<lparr>service = createChat down,
            priorTurns = [m_user, m_ai, m_user, m_ai, m_user, m_ai, m_user],
            delivered = True\<rparr>]
        = [\<lparr>state_summary = [], summarizedThroughIndex = 0\<rparr>]
    \<and> prefix (newOverflow [m_user, m_ai, m_user, m_ai, m_user, m_ai, m_user] 0)
        (newOverflow ([m_user, m_ai, m_user, m_ai, m_user, m_ai, m_user] @ [m_ai, m_user]) 0)"
proof -
  let ?messages = "[m_user, m_ai, m_user, m_ai, m_user, m_ai, m_user, m_user]"
  let ?prev = "[m_user, m_ai, m_user, m_ai, m_user, m_ai, m_user]"
  have a1: "req_sessionId long_chat = Some (js ''s1'')" by (simp add: long_chat_def)
  have a4: "req_messages long_chat = Some ?messages" by (simp add: long_chat_def)
  have a5: "?messages \<noteq> []" by simp
  have a6: "role (last ?messages) = js ''user''" by (simp add: example_facts)
  have a7: "?prev = js_slice ?messages 0 (- 1)" by (simp add: long_chat_overflow)
  have a8: "[] = (case req_summary long_chat of None \<Rightarrow> [] | Some s \<Rightarrow> s)"
    by (simp add: long_chat_def)
  have a9: "0 = (case req_summaryMsgCount long_chat of None \<Rightarrow> 0 | Some n \<Rightarrow> n)"
    by (simp add: long_chat_def)
  have a10: "length ?prev > MAX_RECENT" by (simp add: MAX_RECENT_def)
  have a11: "newOverflow ?prev 0 \<noteq> []" by (simp add: long_chat_overflow)
  have a12: "createChat down (summarizeRequest [] (newOverflow ?prev 0))
               = Inl (Error (js ''429 rate limit''))"
    by (simp add: down_def failing_def)
  have a3: "apiKeySet down" by (simp add: down_def)
  from summarization_failure_fails_request
         [OF a1 example_facts(3) a3 a4 a5 a6 a7 a8 a9 a10 a11 a12, of True "[]" "[m_ai, m_user]"]
  show ?thesis by (simp add: long_chat_overflow error_message_def)
qed

text \<open>
  The claim as stated fails on a request with seven earlier messages when the completion
  service is down: the response is the error with status 500, not a stream carrying the
  previous summary.
\<close>

theorem summarization_failure_is_request_failure:
  "createChat down (summarizeRequest [] [m_user]) = Inl (Error (js ''429 rate limit''))
   \<and> snd (manageMemory (createChat down)
            [m_user, m_ai, m_user, m_ai, m_user, m_ai, m_user] [] 0)
       = Inl (Error (js ''429 rate limit''))
   \<and> POST down (Some long_chat)
       = ([ChatCall (summarizeRequest [] [m_user])], Json 500 (js ''429 rate limit''))"
  by (simp add: POST_def handleChat_def manageMemory_def summarizeOverflow_def long_chat_def
        down_def failing_def long_chat_overflow example_facts MAX_RECENT_def
        error_message_def Let_def)

text \<open>
  Claim C6, reformulation fallback. An absent, empty or whitespace-only reformulation
  falls back to the question as it was. A failure of the call is not caught:
  \<open>reformulateQuery\<close> throws and \<open>POST\<close> answers with status 500 and the message of
  the error.
\<close>

theorem reformulation_fallback_and_failure:
  "(create (reformulateRequest question smry recent) = Inr res
      \<and> \<not> (recent = [] \<and> smry = [])
      \<and> (message_content res = None \<or> (\<exists>c. message_content res = Some c \<and> trim c = []))
    \<longrightarrow> reformulateQuery create question smry recent
          = ([reformulateRequest question smry recent],
             Inr \<lparr>query = question, query_tokens = usage_of res\<rparr>))
   \<and> (create' (reformulateRequest question' smry' recent') = Inl e'
      \<and> \<not> (recent' = [] \<and> smry' = [])
    \<longrightarrow> reformulateQuery create' question' smry' recent'
          = ([reformulateRequest question' smry' recent'], Inl e'))
   \<and> (req_sessionId body = Some sessionId \<and> sessionId \<noteq> [] \<and> apiKeySet srv
      \<and> req_messages body = Some messages \<and> messages \<noteq> []
      \<and> role (last messages) = js ''user''
      \<and> manageMemory (createChat srv) (js_slice messages 0 (- 1))
            (case req_summary body of None \<Rightarrow> [] | Some s \<Rightarrow> s)
            (case req_summaryMsgCount body of None \<Rightarrow> 0 | Some n \<Rightarrow> n)
          = (calls, Inr mem)
      \<and> \<not> (recentMessages mem = [] \<and> currentSummary mem = [])
      \<and> createChat srv (reformulateRequest (content (last messages)) (currentSummary mem)
                          (recentMessages mem)) = Inl e
    \<longrightarrow> POST srv (Some body)
          = (map ChatCall
               (calls @ [reformulateRequest (content (last messages)) (currentSummary mem)
                           (recentMessages mem)]),
             Json 500 (error_message e)))"
proof (intro conjI impI)
  assume "create (reformulateRequest question smry recent) = Inr res
      \<and> \<not> (recent = [] \<and> smry = [])
      \<and> (message_content res = None \<or> (\<exists>c. message_content res = Some c \<and> trim c = []))"
  then show "reformulateQuery create question smry recent
          = ([reformulateRequest question smry recent],
             Inr \<lparr>query = question, query_tokens = usage_of res\<rparr>)"
    by (auto simp: reformulateQuery_def Let_def content_or_def or_else_def)
next
  assume "create' (reformulateRequest question' smry' recent') = Inl e'
      \<and> \<not> (recent' = [] \<and> smry' = [])"
  then show "reformulateQuery create' question' smry' recent'
          = ([reformulateRequest question' smry' recent'], Inl e')"
    by (auto simp: reformulateQuery_def Let_def)
next
  assume a: "req_sessionId body = Some sessionId \<and> sessionId \<noteq> [] \<and> apiKeySet srv
      \<and> req_messages body = Some messages \<and> messages \<noteq> []
      \<and> role (last messages) = js ''user''
      \<and> manageMemory (createChat srv) (js_slice messages 0 (- 1))
            (case req_summary body of None \<Rightarrow> [] | Some s \<Rightarrow> s)
            (case req_summaryMsgCount body of None \<Rightarrow> 0 | Some n \<Rightarrow> n)
          = (calls, Inr mem)
      \<and> \<not> (recentMessages mem = [] \<and> currentSummary mem = [])
      \<and> createChat srv (reformulateRequest (content (last messages)) (currentSummary mem)
                          (recentMessages mem)) = Inl e"
  let ?req = "reformulateRequest (content (last messages)) (currentSummary mem)
                (recentMessages mem)"
  have "reformulateQuery (createChat srv) (content (last messages)) (currentSummary mem)
          (recentMessages mem) = ([?req], Inl e)"
    using a by (auto simp: reformulateQuery_def Let_def)
  then have "handleChat srv messages sessionId (req_selectedDocuments body)
            (case req_summary body of None \<Rightarrow> [] | Some s \<Rightarrow> s)
            (case req_summaryMsgCount body of None \<Rightarrow> 0 | Some n \<Rightarrow> n)
          = (map ChatCall (calls @ [?req]), Inl e)"
    using a by (simp add: handleChat_def Let_def)
  then show "POST srv (Some body) = (map ChatCall (calls @ [?req]), Json 500 (error_message e))"
    using a by (simp add: POST_def)
qed

lemma short_chat_memory:
  "js_slice [m_user, m_ai, m_user] 0 (- 1) = [m_user, m_ai]"
  "manageMemory create [m_user, m_ai] [] 0
     = ([], Inr \<lparr>currentSummary = [], currentSummaryMsgCount = 0,
                 summaryTokens = \<lparr>prompt = 0, completion = 0\<rparr>,
                 recentMessages = [m_user, m_ai]\<rparr>)"
  by (simp_all add: js_slice_def manageMemory_def MAX_RECENT_def)

theorem reformulation_fallback_and_failure_witness:
  "reformulateQuery silent (js ''And why?'') [] [m_user, m_ai]
      = ([reformulateRequest (js ''And why?'') [] [m_user, m_ai]],
         Inr \<lparr>query = js ''And why?'', query_tokens = \<lparr>prompt = 55, completion = 0\<rparr>\<rparr>)
   \<and> reformulateQuery failing (js ''And why?'') [] [m_user, m_ai]
      = ([reformulateRequest (js ''And why?'') [] [m_user, m_ai]],
         Inl (Error (js ''429 rate limit'')))
   \<and> POST down (Some short_chat)
      = ([ChatCall (reformulateRequest (js ''What is it?'') [] [m_user, m_ai])],
         Json 500 (js ''429 rate limit''))"
proof -
  let ?res = "\<lparr>message_content = Some (js ''   ''), prompt_tokens = Some 55,
          completion_tokens = Some 0\<rparr>"
  let ?mem = "\<lparr>currentSummary = [], currentSummaryMsgCount = 0,
          summaryTokens = \<lparr>prompt = 0, completion = 0\<rparr>, recentMessages = [m_user, m_ai]\<rparr>"
  note inst = reformulation_fallback_and_failure
    [of silent "js ''And why?''" "[]" "[m_user, m_ai]" ?res
        failing "js ''And why?''" "[]" "[m_user, m_ai]" "Error (js ''429 rate limit'')"
        short_chat "js ''s1''" down "[m_user, m_ai, m_user]" "[]" ?mem
        "Error (js ''429 rate limit'')"]
  have a: "silent (reformulateRequest (js ''And why?'') [] [m_user, m_ai]) = Inr ?res
      \<and> \<not> ([m_user, m_ai] = [] \<and> ([]::jsstring) = [])
      \<and> (message_content ?res = None
           \<or> (\<exists>c. message_content ?res = Some c \<and> trim c = []))"
    by (simp add: silent_def example_facts)
  have b: "failing (reformulateRequest (js ''And why?'') [] [m_user, m_ai])
             = Inl (Error (js ''429 rate limit''))
      \<and> \<not> ([m_user, m_ai] = [] \<and> ([]::jsstring) = [])"
    by (simp add: failing_def)
  have c: "req_sessionId short_chat = Some (js ''s1'') \<and> js ''s1'' \<noteq> [] \<and> apiKeySet down
      \<and> req_messages short_chat = Some [m_user, m_ai, m_user] \<and> [m_user, m_ai, m_user] \<noteq> []
      \<and> role (last [m_user, m_ai, m_user]) = js ''user''
      \<and> manageMemory (createChat down) (js_slice [m_user, m_ai, m_user] 0 (- 1))
            (case req_summary short_chat of None \<Rightarrow> [] | Some s \<Rightarrow> s)
            (case req_summaryMsgCount short_chat of None \<Rightarrow> 0 | Some n \<Rightarrow> n)
          = ([], Inr ?mem)
      \<and> \<not> (recentMessages ?mem = [] \<and> currentSummary ?mem = [])
      \<and> createChat down (reformulateRequest (content (last [m_user, m_ai, m_user]))
                          (currentSummary ?mem) (recentMessages ?mem))
          = Inl (Error (js ''429 rate limit''))"
    by (simp add: short_chat_def down_def failing_def example_facts short_chat_memory)
  from inst a b c show ?thesis
    by (simp add: usage_of_def error_message_def example_facts)
qed

text \<open>
  The claim as stated fails on a follow-up question when the completion service is down:
  the reformulation call fails and with it the request.
\<close>

theorem reformulation_failure_fails_request:
  "createChat down (reformulateRequest (js ''What is it?'') [] [m_user, m_ai])
     = Inl (Error (js ''429 rate limit''))
   \<and> POST down (Some short_chat)
     = ([ChatCall (reformulateRequest (js ''What is it?'') [] [m_user, m_ai])],
        Json 500 (js ''429 rate limit''))"
  by (simp add: POST_def handleChat_def reformulateQuery_def short_chat_def
        down_def failing_def example_facts short_chat_memory error_message_def Let_def)

section \<open>The stream trailer\<close>

lemma decimal_digit: "n < 10 \<Longrightarrow> decimal n = [48 + n]"
  by (subst decimal.simps) simp

lemma decimal_more: "10 \<le> n \<Longrightarrow> decimal n = decimal (n div 10) @ [48 + n mod 10]"
  by (subst decimal.simps) simp

lemma decimal_examples:
  "decimal 2 = [50]" "decimal 5 = [53]" "decimal 10 = [49, 48]" "decimal 15 = [49, 53]"
  by (simp_all add: decimal_digit decimal_more)

lemma gt_not_ws: "\<not> is_ws 62"
  by (simp add: is_ws_def)

lemma lazy_payload_sound:
  "lazy_payload r = Some p \<Longrightarrow>
     \<exists>w. r = p @ js ''-->'' @ w \<and> list_all is_ws w \<and> (\<forall>c \<in> set p. \<not> is_line_terminator c)"
proof (induction r arbitrary: p)
  case Nil
  then show ?case by simp
next
  case (Cons c cs)
  show ?case
  proof (cases "prefix (js ''-->'') (c # cs) \<and> list_all is_ws (drop 3 (c # cs))")
    case True
    then have "p = []" using Cons.prems by simp
    moreover from True obtain w where "c # cs = js ''-->'' @ w" by (auto simp: prefix_def)
    moreover from this have "drop 3 (c # cs) = w" by (simp add: js_def)
    ultimately show ?thesis using True by auto
  next
    case False
    then have nl: "\<not> is_line_terminator c" and "map_option ((#) c) (lazy_payload cs) = Some p"
      using Cons.prems by (auto split: if_splits)
    then obtain p' where p': "lazy_payload cs = Some p'" "p = c # p'" by auto
    from Cons.IH [OF p'(1)] p'(2) nl show ?thesis by auto
  qed
qed

lemma last_in_drop: "n < length t \<Longrightarrow> last t \<in> set (drop n t)"
  by (metis drop_eq_Nil last_drop last_in_set not_le)

lemma lazy_payload_exact:
  "\<forall>c \<in> set payload. \<not> is_line_terminator c \<Longrightarrow>
     lazy_payload (payload @ js ''-->'') = Some payload"
proof (induction payload)
  case Nil
  show ?case by (simp add: js_def)
next
  case (Cons c cs)
  have "62 \<in> set (drop 3 (c # cs @ js ''-->''))"
    using last_in_drop [of 3 "c # cs @ js ''-->''"] by (simp add: js_def)
  then have "\<not> list_all is_ws (drop 3 (c # cs @ js ''-->''))"
    using gt_not_ws by (metis list_all_iff)
  then show ?case using Cons by simp
qed

lemma payload_before_final_arrow:
  assumes "prefix marker t" and "lazy_payload (drop (length marker) t) = Some p"
    and "t = body @ [62]" and "length marker \<le> length body"
  shows "t = marker @ p @ js ''-->'' \<and> (\<forall>c \<in> set p. \<not> is_line_terminator c)"
proof -
  from lazy_payload_sound [OF assms(2)] obtain w where
    w: "drop (length marker) t = p @ js ''-->'' @ w" "list_all is_ws w"
       "\<forall>c \<in> set p. \<not> is_line_terminator c" by blast
  have t: "t = marker @ p @ js ''-->'' @ w"
    using assms(1) w(1) by (metis append_take_drop_id prefix_def append_eq_conv_conj)
  have "w = []"
  proof (rule ccontr)
    assume "w \<noteq> []"
    then have "last t = last w" using t by simp
    moreover have "last t = 62" using assms(3) by simp
    ultimately have "62 \<in> set w" using \<open>w \<noteq> []\<close> by (metis last_in_set)
    then show False using w(2) gt_not_ws by (metis list_all_iff)
  qed
  with t w(3) show ?thesis by simp
qed

lemma regex_match_skip:
  "\<forall>k < length xs. \<not> (prefix marker (drop k (xs @ rest))
        \<and> lazy_payload (drop (length marker) (drop k (xs @ rest))) \<noteq> None) \<Longrightarrow>
     regex_match marker (xs @ rest) i = regex_match marker rest (i + length xs)"
proof (induction xs arbitrary: i)
  case Nil
  show ?case by simp
next
  case (Cons c cs)
  from Cons.prems have "\<not> (prefix marker (c # cs @ rest)
        \<and> lazy_payload (drop (length marker) (c # cs @ rest)) \<noteq> None)"
    by fastforce
  then have step: "regex_match marker ((c # cs) @ rest) i = regex_match marker (cs @ rest) (i + 1)"
    by (auto split: option.splits)
  have "\<forall>k < length cs. \<not> (prefix marker (drop k (cs @ rest))
        \<and> lazy_payload (drop (length marker) (drop k (cs @ rest))) \<noteq> None)"
  proof (intro allI impI)
    fix k assume "k < length cs"
    then have "Suc k < length (c # cs)" by simp
    from Cons.prems [rule_format, OF this] show "\<not> (prefix marker (drop k (cs @ rest))
        \<and> lazy_payload (drop (length marker) (drop k (cs @ rest))) \<noteq> None)"
      by simp
  qed
  from Cons.IH [OF this, of "i + 1"] step show ?case by simp
qed

lemma regex_match_no_head:
  "marker \<noteq> [] \<Longrightarrow> hd marker \<notin> set xs \<Longrightarrow>
     regex_match marker (xs @ rest) i = regex_match marker rest (i + length xs)"
proof (induction xs arbitrary: i)
  case Nil
  show ?case by simp
next
  case (Cons c cs)
  then have "\<not> prefix marker (c # cs @ rest)" by (cases marker) auto
  then show ?case using Cons by simp
qed

lemma regex_match_here:
  "marker \<noteq> [] \<Longrightarrow> lazy_payload rest = Some p \<Longrightarrow>
     regex_match marker (marker @ rest) i = Some (i, p)"
  by (cases marker) auto

lemma decimal_digits: "\<forall>c \<in> set (decimal n). 48 \<le> c \<and> c \<le> 57"
proof (induction n rule: decimal.induct)
  case (1 n)
  show ?case
  proof (cases "n < 10")
    case True
    then show ?thesis by (subst decimal.simps) simp
  next
    case False
    have "n mod 10 < 10" by simp
    then have "48 + n mod 10 \<le> 57" by linarith
    then show ?thesis using False 1 by (subst decimal.simps) auto
  qed
qed

lemma usageJson_plain:
  "\<forall>c \<in> set (usageJson p q). \<not> is_line_terminator c \<and> c \<noteq> 60"
  using decimal_digits [of p] decimal_digits [of q] decimal_digits [of "p + q"]
  by (auto simp: usageJson_def js_def is_line_terminator_def)

lemma hex_digit_no_terminator: "d < 16 \<Longrightarrow> \<not> is_line_terminator (hex_digit d)"
  by (simp add: hex_digit_def is_line_terminator_def)

lemma unicode_escape_no_terminator: "\<forall>c \<in> set (unicode_escape x). \<not> is_line_terminator c"
proof -
  have m: "n mod 16 < 16" for n :: nat by simp
  have "\<not> is_line_terminator 92" "\<not> is_line_terminator 117"
    by (simp_all add: is_line_terminator_def)
  moreover note hex_digit_no_terminator [OF m [of "x div 4096"]]
    hex_digit_no_terminator [OF m [of "x div 256"]]
    hex_digit_no_terminator [OF m [of "x div 16"]]
    hex_digit_no_terminator [OF m [of x]]
  ultimately show ?thesis unfolding unicode_escape_def
    by (simp only: list.set ball_simps simp_thms)
qed

lemma escape_unit_no_terminator:
  assumes "c \<noteq> 8232" and "c \<noteq> 8233"
  shows "\<forall>x \<in> set (escape_unit c). \<not> is_line_terminator x"
proof -
  have k: "\<not> is_line_terminator 92" "\<not> is_line_terminator 98" "\<not> is_line_terminator 116"
    "\<not> is_line_terminator 110" "\<not> is_line_terminator 102" "\<not> is_line_terminator 114"
    "\<not> is_line_terminator 34"
    by (simp_all add: is_line_terminator_def)
  have cc: "c \<noteq> 10 \<Longrightarrow> c \<noteq> 13 \<Longrightarrow> \<not> is_line_terminator c"
    using assms by (simp add: is_line_terminator_def)
  show ?thesis
    by (simp add: escape_unit_def k cc unicode_escape_no_terminator)
qed

lemma json_escape_no_terminator:
  "8232 \<notin> set s \<Longrightarrow> 8233 \<notin> set s \<Longrightarrow> \<forall>c \<in> set (json_escape s). \<not> is_line_terminator c"
proof (induction s rule: json_escape.induct)
  case 1
  show ?case by simp
next
  case (2 c)
  then show ?case using escape_unit_no_terminator [of c] by simp
next
  case (3 c d ds)
  show ?case
  proof (cases "is_high_surrogate c \<and> is_low_surrogate d")
    case True
    then have "\<not> is_line_terminator c" "\<not> is_line_terminator d"
      by (auto simp: is_line_terminator_def is_high_surrogate_def is_low_surrogate_def)
    moreover have "\<forall>x \<in> set (json_escape ds). \<not> is_line_terminator x"
      using 3 True by simp
    ultimately show ?thesis using True by simp
  next
    case False
    have "\<forall>x \<in> set (json_escape (d # ds)). \<not> is_line_terminator x"
      using 3 False by simp
    moreover have "\<forall>x \<in> set (escape_unit c). \<not> is_line_terminator x"
      using escape_unit_no_terminator [of c] "3.prems" by simp
    moreover have "json_escape (c # d # ds) = escape_unit c @ json_escape (d # ds)"
      by (simp only: json_escape.simps False if_False)
    ultimately show ?thesis by (simp only: set_append ball_Un)
  qed
qed

lemma digits_no_terminator: "\<forall>c \<in> set (decimal n). \<not> is_line_terminator c"
  using decimal_digits [of n] by (auto simp: is_line_terminator_def)

lemma show_int_plain: "\<forall>c \<in> set (show_int n). \<not> is_line_terminator c"
proof (cases "n < 0")
  case True
  have "\<not> is_line_terminator 45" by (simp add: is_line_terminator_def)
  then show ?thesis using True digits_no_terminator [of "nat (- n)"] by (simp add: show_int_def)
next
  case False
  then show ?thesis using digits_no_terminator [of "nat n"] by (simp add: show_int_def)
qed

lemma summaryJson_plain:
  assumes "8232 \<notin> set s" and "8233 \<notin> set s"
  shows "\<forall>c \<in> set (summaryJson s n). \<not> is_line_terminator c"
proof -
  have a: "\<forall>c \<in> set (js ''{\"text\":''). \<not> is_line_terminator c"
    by (simp add: js_def is_line_terminator_def)
  have b: "\<forall>c \<in> set (js '',\"msgCount\":''). \<not> is_line_terminator c"
    by (simp add: js_def is_line_terminator_def)
  have c: "\<forall>c \<in> set (js ''}''). \<not> is_line_terminator c"
    by (simp add: js_def is_line_terminator_def)
  have q: "\<not> is_line_terminator 34" by (simp add: is_line_terminator_def)
  show ?thesis
    unfolding summaryJson_def json_string_def
    using a b c q json_escape_no_terminator [OF assms] show_int_plain [of n]
    by (simp only: set_append ball_Un set_simps ball_simps) simp
qed

lemma regex_match_skip_line:
  assumes "10 \<notin> set marker" and "10 # tail = body @ [62]" and "length marker \<le> length body"
  shows "regex_match marker (answer @ 10 # tail) i = regex_match marker (10 # tail) (i + length answer)"
proof (rule regex_match_skip, intro allI impI notI)
  fix k assume k: "k < length answer"
    and m: "prefix marker (drop k (answer @ 10 # tail))
        \<and> lazy_payload (drop (length marker) (drop k (answer @ 10 # tail))) \<noteq> None"
  let ?t = "drop k (answer @ 10 # tail)"
  have t: "?t = (drop k answer @ body) @ [62]" using k assms(2) by simp
  from m obtain p where p: "lazy_payload (drop (length marker) ?t) = Some p" by auto
  have "length marker \<le> length (drop k answer @ body)" using assms(3) by simp
  from payload_before_final_arrow [OF _ p t this] m
  have "?t = marker @ p @ js ''-->''" "\<forall>c \<in> set p. \<not> is_line_terminator c" by auto
  then have "10 \<notin> set ?t" using assms(1) by (auto simp: js_def is_line_terminator_def)
  moreover have "10 \<in> set ?t" using k by simp
  ultimately show False by contradiction
qed

lemma newline_after_two:
  "xs \<noteq> [] \<Longrightarrow> 10 \<in> set (drop 2 (xs @ 10 # 10 # ys))"
proof -
  assume "xs \<noteq> []"
  then obtain a as where xs: "xs = a # as" by (cases xs) auto
  show ?thesis
  proof (cases as)
    case Nil
    then show ?thesis using xs by simp
  next
    case (Cons b bs)
    then show ?thesis using xs by simp
  qed
qed

lemma usage_found:
  assumes "\<forall>c \<in> set payload. \<not> is_line_terminator c"
  shows "regex_match USAGE_MARKER (answer @ USAGE_MARKER @ payload @ js ''-->'') 0
           = Some (length answer, payload)"
proof -
  let ?rest = "USAGE_MARKER @ payload @ js ''-->''"
  have "regex_match USAGE_MARKER (answer @ ?rest) 0
          = regex_match USAGE_MARKER ?rest (0 + length answer)"
  proof (rule regex_match_skip, intro allI impI notI)
    fix k assume k: "k < length answer"
      and m: "prefix USAGE_MARKER (drop k (answer @ ?rest))
        \<and> lazy_payload (drop (length USAGE_MARKER) (drop k (answer @ ?rest))) \<noteq> None"
    let ?t = "drop k (answer @ ?rest)"
    let ?body = "drop k answer @ USAGE_MARKER @ payload @ js ''--''"
    have t: "?t = ?body @ [62]" using k by (simp add: js_def)
    from m obtain p where p: "lazy_payload (drop (length USAGE_MARKER) ?t) = Some p" by auto
    have "length USAGE_MARKER \<le> length ?body" by simp
    from payload_before_final_arrow [OF _ p t this] m
    have eq: "?t = USAGE_MARKER @ p @ js ''-->''" and p': "\<forall>c \<in> set p. \<not> is_line_terminator c"
      by auto
    have "drop 2 ?t = js ''<!--USAGE:'' @ p @ js ''-->''"
      unfolding eq by (simp add: USAGE_MARKER_def)
    then have "10 \<notin> set (drop 2 ?t)"
      using p' by (auto simp: js_def is_line_terminator_def)
    moreover have "10 \<in> set (drop 2 ?t)"
    proof -
      have tform: "?t = drop k answer @ 10 # 10 # (js ''<!--USAGE:'' @ payload @ js ''-->'')"
        using k by (simp add: USAGE_MARKER_def)
      have "drop k answer \<noteq> []" using k by simp
      then show ?thesis unfolding tform by (rule newline_after_two)
    qed
    ultimately show False by contradiction
  qed
  moreover have "regex_match USAGE_MARKER ?rest (0 + length answer)
                   = Some (0 + length answer, payload)"
    by (rule regex_match_here) (simp_all add: USAGE_MARKER_def lazy_payload_exact [OF assms])
  ultimately show ?thesis by simp
qed

lemma summary_skips_usage:
  assumes "60 \<notin> set payload"
  shows "regex_match SUMMARY_MARKER (USAGE_MARKER @ payload @ js ''-->'' @ rest) i
           = regex_match SUMMARY_MARKER rest (i + length (USAGE_MARKER @ payload @ js ''-->''))"
proof -
  let ?T = "js ''!--USAGE:'' @ payload @ js ''-->''"
  have shape: "USAGE_MARKER @ payload @ js ''-->'' @ rest = [10, 10] @ (60 # ?T @ rest)"
    by (simp add: USAGE_MARKER_def js_def)
  have m: "SUMMARY_MARKER \<noteq> []" "hd SUMMARY_MARKER = 60"
    by (simp_all add: SUMMARY_MARKER_def js_def)
  have "regex_match SUMMARY_MARKER ([10, 10] @ (60 # ?T @ rest)) i
          = regex_match SUMMARY_MARKER (60 # ?T @ rest) (i + length [10, 10 :: nat])"
    by (rule regex_match_no_head) (simp_all add: m)
  also have "\<dots> = regex_match SUMMARY_MARKER (?T @ rest) (i + 3)"
  proof -
    have "\<not> prefix SUMMARY_MARKER (60 # ?T @ rest)"
      by (simp add: SUMMARY_MARKER_def js_def)
    then show ?thesis by (simp add: eval_nat_numeral)
  qed
  also have "\<dots> = regex_match SUMMARY_MARKER rest (i + 3 + length ?T)"
    by (rule regex_match_no_head) (use assms in \<open>simp_all add: m\<close>, simp add: js_def)
  also have "i + 3 + length ?T = i + length (USAGE_MARKER @ payload @ js ''-->'')"
    by (simp add: USAGE_MARKER_def js_def)
  finally show ?thesis unfolding shape .
qed

lemma summary_skips_answer:
  "regex_match SUMMARY_MARKER (answer @ USAGE_MARKER @ payload @ js ''-->'' @ rest) 0
     = regex_match SUMMARY_MARKER (USAGE_MARKER @ payload @ js ''-->'' @ rest) (length answer)"
  if "rest = [] \<or> (\<exists>body. rest = body @ [62])"
proof -
  let ?tail = "10 # js ''<!--USAGE:'' @ payload @ js ''-->'' @ rest"
  have shape: "USAGE_MARKER @ payload @ js ''-->'' @ rest = 10 # ?tail"
    by (simp add: USAGE_MARKER_def)
  obtain body where body: "10 # ?tail = body @ [62]" "12 \<le> length body"
  proof (cases "rest = []")
    case True
    have "10 # ?tail = (10 # 10 # js ''<!--USAGE:'' @ payload @ js ''--'') @ [62]"
      using True by (simp add: js_def)
    moreover have "12 \<le> length (10 # 10 # js ''<!--USAGE:'' @ payload @ js ''--'')"
      by (simp add: js_def)
    ultimately show ?thesis using that by blast
  next
    case False
    with \<open>rest = [] \<or> (\<exists>body. rest = body @ [62])\<close> obtain b where "rest = b @ [62]" by blast
    then have "10 # ?tail = (10 # 10 # js ''<!--USAGE:'' @ payload @ js ''-->'' @ b) @ [62]"
      by simp
    moreover have "12 \<le> length (10 # 10 # js ''<!--USAGE:'' @ payload @ js ''-->'' @ b)"
      by (simp add: js_def)
    ultimately show ?thesis using that by blast
  qed
  have "regex_match SUMMARY_MARKER (answer @ 10 # ?tail) 0
          = regex_match SUMMARY_MARKER (10 # ?tail) (0 + length answer)"
    by (rule regex_match_skip_line [OF _ body(1)])
       (use body(2) in \<open>simp_all add: SUMMARY_MARKER_def js_def\<close>)
  then show ?thesis unfolding shape by simp
qed

lemma summary_found:
  assumes "60 \<notin> set up" and "\<forall>c \<in> set sp. \<not> is_line_terminator c"
  shows "regex_match SUMMARY_MARKER
           (answer @ USAGE_MARKER @ up @ js ''-->'' @ SUMMARY_MARKER @ sp @ js ''-->'') 0
         = Some (length (answer @ USAGE_MARKER @ up @ js ''-->''), sp)"
proof -
  let ?S = "SUMMARY_MARKER @ sp @ js ''-->''"
  have "?S = (SUMMARY_MARKER @ sp @ js ''--'') @ [62]" by (simp add: js_def)
  then have "?S = [] \<or> (\<exists>body. ?S = body @ [62])" by blast
  from summary_skips_answer [OF this, of answer up]
  have "regex_match SUMMARY_MARKER (answer @ USAGE_MARKER @ up @ js ''-->'' @ ?S) 0
          = regex_match SUMMARY_MARKER (USAGE_MARKER @ up @ js ''-->'' @ ?S) (length answer)" .
  also have "\<dots> = regex_match SUMMARY_MARKER ?S
                      (length answer + length (USAGE_MARKER @ up @ js ''-->''))"
    by (rule summary_skips_usage [OF assms(1)])
  also have "\<dots> = Some (length answer + length (USAGE_MARKER @ up @ js ''-->''), sp)"
    by (rule regex_match_here) (simp_all add: SUMMARY_MARKER_def js_def [of "''<!--SUMMARY:''"]
          lazy_payload_exact [OF assms(2)])
  finally show ?thesis by simp
qed

lemma summary_absent:
  assumes "60 \<notin> set up"
  shows "regex_match SUMMARY_MARKER (answer @ USAGE_MARKER @ up @ js ''-->'') 0 = None"
proof -
  have "regex_match SUMMARY_MARKER (answer @ USAGE_MARKER @ up @ js ''-->'' @ []) 0
          = regex_match SUMMARY_MARKER (USAGE_MARKER @ up @ js ''-->'' @ []) (length answer)"
    by (rule summary_skips_answer) simp
  also have "\<dots> = regex_match SUMMARY_MARKER []
                      (length answer + length (USAGE_MARKER @ up @ js ''-->''))"
    by (rule summary_skips_usage [OF assms])
  finally show ?thesis by simp
qed

text \<open>
  What \<open>TextEncoder.encode\<close> does to the chunks of the stream: a string without
  surrogates keeps its code points, an ASCII string, such as the usage trailer, is
  written byte for byte, and a surrogate pair is one four-byte sequence when it comes
  in one chunk, two replacement characters U+FFFD when the completion stream splits
  it over two chunks.
\<close>

lemma code_points_plain:
  "\<forall>c \<in> set s. \<not> is_high_surrogate c \<and> \<not> is_low_surrogate c \<Longrightarrow> code_points s = s"
  by (induction s rule: code_points.induct) auto

lemma encode_ascii: "\<forall>c \<in> set s. c < 128 \<Longrightarrow> encode s = s"
proof -
  assume a: "\<forall>c \<in> set s. c < 128"
  then have "\<forall>c \<in> set s. \<not> is_high_surrogate c \<and> \<not> is_low_surrogate c"
    by (auto simp: is_high_surrogate_def is_low_surrogate_def)
  then have "code_points s = s" by (rule code_points_plain)
  moreover have "concat (map utf8 s) = s" using a by (induction s) (simp_all add: utf8_def)
  ultimately show ?thesis by (simp add: encode_def)
qed

lemma encode_surrogates:
  "encode [55357, 56832] = [240, 159, 152, 128]"
  "encode [55357] = [239, 191, 189]"
  "encode [56832] = [239, 191, 189]"
  by (simp_all add: encode_def utf8_def is_high_surrogate_def is_low_surrogate_def)

lemma usageSentinel_encoded: "encode (usageSentinel p q) = usageSentinel p q"
proof (rule encode_ascii)
  show "\<forall>c \<in> set (usageSentinel p q). c < 128"
    using decimal_digits [of p] decimal_digits [of q] decimal_digits [of "p + q"]
    by (auto simp: usageSentinel_def usageJson_def USAGE_MARKER_def js_def)
qed

lemma split_surrogate_pair_replaced:
  "snd (pump [\<lparr>chunk_usage = None, delta = Some [55357]\<rparr>,
              \<lparr>chunk_usage = None, delta = Some [56832]\<rparr>] tk [])
     = [[239, 191, 189], [239, 191, 189]]"
  "snd (pump [\<lparr>chunk_usage = None, delta = Some [55357, 56832]\<rparr>] tk [])
     = [[240, 159, 152, 128]]"
  by (simp_all add: encode_surrogates)

text \<open>
  On the text the consumer has decoded, an answer followed by the trailers, the round
  trip is exact for every answer, every usage and every memory state whose summary
  holds neither U+2028 nor U+2029; without the SUMMARY trailer the summary decodes to
  null. The values are compared before \<open>JSON.parse\<close>: the extractor hands it exactly
  the text \<open>JSON.stringify\<close> produced.
\<close>

lemma trailer_round_trip:
  assumes "8232 \<notin> set summaryText" and "8233 \<notin> set summaryText"
  shows "extractSentinels parseUsage parseSummary
           (answer @ usageSentinel p c @ summarySentinel summaryText n)
         = \<lparr>cleanText = answer, usage = parseUsage (usageJson p c),
            summary = parseSummary (summaryJson summaryText n)\<rparr>
       \<and> extractSentinels parseUsage parseSummary (answer @ usageSentinel p c)
         = \<lparr>cleanText = answer, usage = parseUsage (usageJson p c), summary = None\<rparr>"
proof -
  let ?U = "USAGE_MARKER @ usageJson p c @ js ''-->''"
  let ?S = "SUMMARY_MARKER @ summaryJson summaryText n @ js ''-->''"
  have U: "usageSentinel p c = ?U" and S: "summarySentinel summaryText n = ?S"
    by (simp_all add: usageSentinel_def summarySentinel_def)
  have up: "60 \<notin> set (usageJson p c)" "\<forall>x \<in> set (usageJson p c). \<not> is_line_terminator x"
    using usageJson_plain [of p c] by auto
  have sp: "\<forall>x \<in> set (summaryJson summaryText n). \<not> is_line_terminator x"
    by (rule summaryJson_plain [OF assms])
  have s1: "regex_match SUMMARY_MARKER (answer @ ?U @ ?S) 0
              = Some (length (answer @ ?U), summaryJson summaryText n)"
    using summary_found [OF up(1) sp, of answer] by simp
  have s2: "regex_match SUMMARY_MARKER (answer @ ?U) 0 = None"
    using summary_absent [OF up(1), of answer] by simp
  have u: "regex_match USAGE_MARKER (answer @ ?U) 0 = Some (length answer, usageJson p c)"
    using usage_found [OF up(2), of answer] by simp
  have "extractSentinels parseUsage parseSummary (answer @ ?U @ ?S)
         = \<lparr>cleanText = answer, usage = parseUsage (usageJson p c),
            summary = parseSummary (summaryJson summaryText n)\<rparr>"
    unfolding extractSentinels_def using s1 u by (simp del: append_assoc)
  moreover have "extractSentinels parseUsage parseSummary (answer @ ?U)
         = \<lparr>cleanText = answer, usage = parseUsage (usageJson p c), summary = None\<rparr>"
    unfolding extractSentinels_def using s2 u by simp
  ultimately show ?thesis unfolding U S by simp
qed

lemma line_separator_sentinels:
  "usageSentinel 10 5 = [10, 10] @ js ''<!--USAGE:{\"prompt\":10,\"completion\":5,\"total\":15}-->''"
  "summarySentinel [97, 8232, 98] 2
     = js ''<!--SUMMARY:{\"text\":\"a'' @ [8232] @ js ''b\",\"msgCount\":2}-->''"
  by (simp_all add: usageSentinel_def summarySentinel_def usageJson_def summaryJson_def
        USAGE_MARKER_def SUMMARY_MARKER_def json_string_def show_int_def
        decimal_examples js_def escape_unit_def is_high_surrogate_def is_low_surrogate_def)

text \<open>
  Claim C9, trailer round trip. \<open>JSON.stringify\<close> leaves the line separator U+2028 (and
  U+2029) unescaped, and the \<open>.\<close> of the two regular expressions does not match it.
  For the answer "Hi", usage 10 + 5 and the summary "a", U+2028, "b" with count 2, neither
  expression matches the stream: the decoded text is the whole stream, trailers
  included, and both usage and summary are null, whatever \<open>JSON.parse\<close> does.
\<close>

theorem line_separator_in_summary_defeats_extraction:
  "extractSentinels parseUsage parseSummary
     (js ''Hi'' @ usageSentinel 10 5 @ summarySentinel [97, 8232, 98] 2)
   = \<lparr>cleanText = js ''Hi'' @ usageSentinel 10 5 @ summarySentinel [97, 8232, 98] 2,
      usage = None, summary = None\<rparr>"
  by (simp add: line_separator_sentinels extractSentinels_def USAGE_MARKER_def
        SUMMARY_MARKER_def js_def is_ws_def is_line_terminator_def)

end
